theory Spec2Isabelle
  imports Main "HOL-Library.Word" "HOL-Library.Multiset"
begin

section \<open>Outcomes of the C++ code\<close>

text \<open>
  Every way in which a call of the library can end without a value is a constructor:
  \<^item> \<open>Thrown msg\<close>: a \<open>db_1c_8x::exception\<close> (the library's single exception class) with
    its message;
  \<^item> \<open>Std_out_of_range\<close>: the \<open>std::out_of_range\<close> of \<open>std::vector::at\<close>;
  \<^item> \<open>Assertion_failed\<close>: an \<open>assert\<close> whose condition is false, in a build where
    \<open>assert\<close> is active (\<open>NDEBUG\<close> not defined);
  \<^item> \<open>Undefined_behaviour\<close>: a dereference of an iterator or pointer outside its
    container, which the code does not guard.
  Functions that contain an \<open>assert\<close> the claims depend on take the flag \<open>ndebug\<close>:
  with \<open>ndebug = True\<close> the macro expands to nothing and execution goes on.
\<close>

datatype failure =
    Thrown string
  | Std_out_of_range
  | Assertion_failed
  | Undefined_behaviour

type_synonym byte = "8 word"
type_synonym u16 = "16 word"
type_synonym u32 = "32 word"
type_synonym size_t = "64 word"

section \<open>cache.h: FIFO, LRU and 2Q\<close>

text \<open>
  An iterator into \<open>items\<close> is its index; \<open>items.end()\<close> is \<open>length items\<close>. The vector
  is reserved for \<open>max_size\<close> entries by the constructor, so no insertion below reallocates
  and a stored iterator keeps its position.
\<close>

fun item_find :: "('k \<times> 'v) list \<Rightarrow> 'k \<Rightarrow> nat" where
  "item_find [] index = 0"
| "item_find (x # xs) index = (if fst x = index then 0 else Suc (item_find xs index))"

record ('k, 'v) fifo =
  fifo_max_size :: nat
  fifo_items :: "('k \<times> 'v) list"
  fifo_next_item :: nat

definition fifo_init :: "nat \<Rightarrow> ('k, 'v) fifo" where
  "fifo_init sz = \<lparr>fifo_max_size = sz, fifo_items = [], fifo_next_item = 0\<rparr>"

definition fifo_new :: "bool \<Rightarrow> nat \<Rightarrow> failure + ('k, 'v) fifo" where
  "fifo_new ndebug sz =
     (if \<not> ndebug \<and> \<not> 1 \<le> sz then Inl Assertion_failed else Inr (fifo_init sz))"

definition fifo_item_push ::
  "('k, 'v) fifo \<Rightarrow> 'k \<times> 'v \<Rightarrow> failure + (('k \<times> 'v) option \<times> ('k, 'v) fifo)" where
  "fifo_item_push q item =
     (if length (fifo_items q) < fifo_max_size q
      then Inr (None, q\<lparr>fifo_items := fifo_items q @ [item],
                         fifo_next_item := Suc (length (fifo_items q))\<rparr>)
      else
        (let n = (if fifo_next_item q = length (fifo_items q) then 0 else fifo_next_item q)
         in if n < length (fifo_items q)
            then Inr (Some (fifo_items q ! n),
                      q\<lparr>fifo_items := (fifo_items q)[n := item], fifo_next_item := Suc n\<rparr>)
            else Inl Undefined_behaviour))"

definition fifo_find :: "('k, 'v) fifo \<Rightarrow> 'k \<Rightarrow> 'v option" where
  "fifo_find q index =
     (let i_res = item_find (fifo_items q) index
      in if i_res \<noteq> length (fifo_items q) then Some (snd (fifo_items q ! i_res)) else None)"

definition fifo_push ::
  "('k, 'v) fifo \<Rightarrow> 'k \<times> 'v \<Rightarrow> failure + (('k \<times> 'v) option \<times> ('k, 'v) fifo)" where
  "fifo_push q item = fifo_item_push q item"

definition fifo_clear :: "('k, 'v) fifo \<Rightarrow> ('k, 'v) fifo" where
  "fifo_clear q = q\<lparr>fifo_items := [], fifo_next_item := 0\<rparr>"

record ('k, 'v) lru =
  lru_max_size :: nat
  lru_items :: "('k \<times> 'v) list"

definition lru_init :: "nat \<Rightarrow> ('k, 'v) lru" where
  "lru_init sz = \<lparr>lru_max_size = sz, lru_items = []\<rparr>"

definition lru_new :: "bool \<Rightarrow> nat \<Rightarrow> failure + ('k, 'v) lru" where
  "lru_new ndebug sz =
     (if \<not> ndebug \<and> \<not> 1 \<le> sz then Inl Assertion_failed else Inr (lru_init sz))"

definition item_move_top :: "('k \<times> 'v) list \<Rightarrow> nat \<Rightarrow> ('k \<times> 'v) list" where
  "item_move_top items i = take i items @ drop (Suc i) items @ [items ! i]"

definition lru_item_push ::
  "('k, 'v) lru \<Rightarrow> 'k \<times> 'v \<Rightarrow> failure + (('k \<times> 'v) option \<times> ('k, 'v) lru)" where
  "lru_item_push q item =
     (if length (lru_items q) < lru_max_size q
      then Inr (None, q\<lparr>lru_items := lru_items q @ [item]\<rparr>)
      else
        (case lru_items q of
           [] \<Rightarrow> Inl Undefined_behaviour
         | front # rest \<Rightarrow> Inr (Some front, q\<lparr>lru_items := rest @ [item]\<rparr>)))"

definition lru_find :: "('k, 'v) lru \<Rightarrow> 'k \<Rightarrow> 'v option \<times> ('k, 'v) lru" where
  "lru_find q index =
     (let i_res = item_find (lru_items q) index
      in if i_res \<noteq> length (lru_items q)
         then (Some (snd (lru_items q ! i_res)),
               q\<lparr>lru_items := item_move_top (lru_items q) i_res\<rparr>)
         else (None, q))"

definition lru_push ::
  "('k, 'v) lru \<Rightarrow> 'k \<times> 'v \<Rightarrow> failure + (('k \<times> 'v) option \<times> ('k, 'v) lru)" where
  "lru_push q item = lru_item_push q item"

definition lru_clear :: "('k, 'v) lru \<Rightarrow> ('k, 'v) lru" where
  "lru_clear q = q\<lparr>lru_items := []\<rparr>"

text \<open>
  \<open>twoq\<close>: the members \<open>in\<close>, \<open>out\<close> and \<open>main\<close>. \<open>out\<close> stores a \<open>char\<close> as item, always
  written as 0.
\<close>

record ('k, 'v) twoq =
  twoq_in :: "('k, 'v) fifo"
  twoq_out :: "('k, byte) fifo"
  twoq_main :: "('k, 'v) lru"

definition twoq_init :: "nat \<Rightarrow> ('k, 'v) twoq" where
  "twoq_init sz =
     \<lparr>twoq_in = fifo_init (sz div 4),
      twoq_out = fifo_init (sz div 2),
      twoq_main = lru_init (sz - sz div 4)\<rparr>"

definition twoq_new :: "bool \<Rightarrow> nat \<Rightarrow> failure + ('k, 'v) twoq" where
  "twoq_new ndebug sz =
     (case fifo_new ndebug (sz div 4) of
        Inl e \<Rightarrow> Inl e
      | Inr i \<Rightarrow>
          (case fifo_new ndebug (sz div 2) of
             Inl e \<Rightarrow> Inl e
           | Inr out \<Rightarrow>
               (case lru_new ndebug (sz - sz div 4) of
                  Inl e \<Rightarrow> Inl e
                | Inr m \<Rightarrow> Inr \<lparr>twoq_in = i, twoq_out = out, twoq_main = m\<rparr>)))"

definition twoq_find :: "('k, 'v) twoq \<Rightarrow> 'k \<Rightarrow> 'v option \<times> ('k, 'v) twoq" where
  "twoq_find q index =
     (case lru_find (twoq_main q) index of
        (Some v, m) \<Rightarrow> (Some v, q\<lparr>twoq_main := m\<rparr>)
      | (None, m) \<Rightarrow> (fifo_find (twoq_in q) index, q\<lparr>twoq_main := m\<rparr>))"

definition twoq_push ::
  "('k, 'v) twoq \<Rightarrow> 'k \<times> 'v \<Rightarrow> failure + (('k \<times> 'v) option \<times> ('k, 'v) twoq)" where
  "twoq_push q item =
     (if fifo_find (twoq_out q) (fst item) = None
      then
        (case fifo_push (twoq_in q) item of
           Inl e \<Rightarrow> Inl e
         | Inr (None, i) \<Rightarrow> Inr (None, q\<lparr>twoq_in := i\<rparr>)
         | Inr (Some evicted, i) \<Rightarrow>
             (case fifo_push (twoq_out q) (fst evicted, 0) of
                Inl e \<Rightarrow> Inl e
              | Inr (_, out) \<Rightarrow> Inr (Some evicted, q\<lparr>twoq_in := i, twoq_out := out\<rparr>)))
      else
        (case lru_push (twoq_main q) item of
           Inl e \<Rightarrow> Inl e
         | Inr (result, m) \<Rightarrow> Inr (result, q\<lparr>twoq_main := m\<rparr>)))"

definition twoq_clear :: "('k, 'v) twoq \<Rightarrow> ('k, 'v) twoq" where
  "twoq_clear q =
     q\<lparr>twoq_in := fifo_clear (twoq_in q),
       twoq_out := fifo_clear (twoq_out q),
       twoq_main := lru_clear (twoq_main q)\<rparr>"

text \<open>
  A client of the cache: a sequence of calls on one \<open>twoq\<close> object. The run stops at the
  first call that fails.
\<close>

datatype ('k, 'v) twoq_op = Push 'k 'v | Find 'k | Clear

fun twoq_run :: "('k, 'v) twoq \<Rightarrow> ('k, 'v) twoq_op list \<Rightarrow> failure + ('k, 'v) twoq" where
  "twoq_run q [] = Inr q"
| "twoq_run q (Push k v # ops) =
     (case twoq_push q (k, v) of Inl e \<Rightarrow> Inl e | Inr (_, q') \<Rightarrow> twoq_run q' ops)"
| "twoq_run q (Find k # ops) = twoq_run (snd (twoq_find q k)) ops"
| "twoq_run q (Clear # ops) = twoq_run (twoq_clear q) ops"

text \<open>
  The keys held by a sub-cache, and the representation invariants of the three classes:
  no more entries than \<open>max_size\<close>, the FIFO cursor inside the vector or at its end, and
  the three capacities as the constructor of \<open>twoq\<close> computes them from \<open>N\<close>.
\<close>

definition fifo_keys :: "('k, 'v) fifo \<Rightarrow> 'k set" where
  "fifo_keys q = fst ` set (fifo_items q)"

definition lru_keys :: "('k, 'v) lru \<Rightarrow> 'k set" where
  "lru_keys q = fst ` set (lru_items q)"

definition fifo_inv :: "('k, 'v) fifo \<Rightarrow> bool" where
  "fifo_inv q \<longleftrightarrow>
     length (fifo_items q) \<le> fifo_max_size q \<and> fifo_next_item q \<le> length (fifo_items q)"

definition lru_inv :: "('k, 'v) lru \<Rightarrow> bool" where
  "lru_inv q \<longleftrightarrow> length (lru_items q) \<le> lru_max_size q"

definition twoq_inv :: "nat \<Rightarrow> ('k, 'v) twoq \<Rightarrow> bool" where
  "twoq_inv N q \<longleftrightarrow>
     fifo_inv (twoq_in q) \<and> fifo_inv (twoq_out q) \<and> lru_inv (twoq_main q) \<and>
     fifo_max_size (twoq_in q) = N div 4 \<and>
     fifo_max_size (twoq_out q) = N div 2 \<and>
     lru_max_size (twoq_main q) = N - N div 4"

text \<open>The 2Q cache of capacity 8 after \<open>push (1, 10)\<close> on the new object.\<close>

definition twoq_8_after_push :: "(nat, nat) twoq" where
  "twoq_8_after_push =
     \<lparr>twoq_in = \<lparr>fifo_max_size = 2, fifo_items = [(1, 10)], fifo_next_item = 1\<rparr>,
      twoq_out = \<lparr>fifo_max_size = 4, fifo_items = [], fifo_next_item = 0\<rparr>,
      twoq_main = \<lparr>lru_max_size = 6, lru_items = []\<rparr>\<rparr>"

text \<open>
  Capacity 8 again: \<open>in\<close> full with the keys 1 and 2; the same cache after \<open>push (3, 30)\<close>,
  which evicts key 1 from \<open>in\<close>; and after \<open>push (1, 20)\<close> on \<open>twoq_8_after_push\<close>, a call
  that skips the \<open>find\<close> the header asks for.
\<close>

definition twoq_8_full_in :: "(nat, nat) twoq" where
  "twoq_8_full_in =
     \<lparr>twoq_in = \<lparr>fifo_max_size = 2, fifo_items = [(1, 10), (2, 20)], fifo_next_item = 2\<rparr>,
      twoq_out = \<lparr>fifo_max_size = 4, fifo_items = [], fifo_next_item = 0\<rparr>,
      twoq_main = \<lparr>lru_max_size = 6, lru_items = []\<rparr>\<rparr>"

definition twoq_8_ghost :: "(nat, nat) twoq" where
  "twoq_8_ghost =
     \<lparr>twoq_in = \<lparr>fifo_max_size = 2, fifo_items = [(3, 30), (2, 20)], fifo_next_item = 1\<rparr>,
      twoq_out = \<lparr>fifo_max_size = 4, fifo_items = [(1, 0)], fifo_next_item = 1\<rparr>,
      twoq_main = \<lparr>lru_max_size = 6, lru_items = []\<rparr>\<rparr>"

definition twoq_8_pushed_twice :: "(nat, nat) twoq" where
  "twoq_8_pushed_twice =
     \<lparr>twoq_in = \<lparr>fifo_max_size = 2, fifo_items = [(1, 10), (1, 20)], fifo_next_item = 2\<rparr>,
      twoq_out = \<lparr>fifo_max_size = 4, fifo_items = [], fifo_next_item = 0\<rparr>,
      twoq_main = \<lparr>lru_max_size = 6, lru_items = []\<rparr>\<rparr>"

section \<open>db_1cd_8x.cpp: file\<close>

text \<open>
  The platform under \<open>file\<close> is a value of its own: the bytes of the file on disk and the
  codes with which the WinAPI calls fail (0 is \<open>NO_ERROR\<close>: they succeed). \<open>open_error\<close>
  is what \<open>CreateFileW\<close> and \<open>GetFileSizeEx\<close> report, \<open>read_error\<close> what
  \<open>SetFilePointerEx\<close> and \<open>ReadFile\<close> report. A \<open>file::error\<close> is its code; its
  \<open>operator bool\<close> is \<open>code = 0\<close>.

  A \<open>ReadFile\<close> that succeeds with fewer bytes than asked (\<open>readed_size != count_\<close>) makes
  \<open>file::read\<close> return \<open>error (GetLastError ())\<close>. No call has failed at that point: the
  code is whatever the last error of the thread happens to be, \<open>short_read_error\<close> here.
  When it is 0, \<open>file::read\<close> reports success although the destination got only the
  bytes that were there to read.
\<close>

record disk =
  disk_bytes :: "byte list"
  open_error :: nat
  read_error :: nat
  short_read_error :: nat

record "file" =
  file_handle :: bool
  file_size :: nat

definition file_init :: "file" where
  "file_init = \<lparr>file_handle = False, file_size = 0\<rparr>"

definition file_is_valid :: "file \<Rightarrow> bool" where
  "file_is_valid f = file_handle f"

definition file_open :: "disk \<Rightarrow> file \<Rightarrow> nat \<times> file" where
  "file_open d f =
     (if open_error d \<noteq> 0 then (open_error d, f)
      else (0, \<lparr>file_handle = True, file_size = length (disk_bytes d)\<rparr>))"

text \<open>
  \<open>file::read\<close>: \<open>Inl\<close> is the code of an error, \<open>Inr\<close> are the bytes that arrived at
  \<open>dst_buff_\<close> when the function reports success; they can be fewer than \<open>count_\<close>. The
  caller lays them over the destination. Where the function reports an error, its callers
  return or throw at once without looking at the destination, and the model leaves the
  destination as it was.
\<close>

definition file_read :: "disk \<Rightarrow> file \<Rightarrow> nat \<Rightarrow> nat \<Rightarrow> nat + byte list" where
  "file_read d f cnt pos =
     (if read_error d \<noteq> 0 then Inl (read_error d)
      else
        (let readed = take cnt (drop pos (disk_bytes d))
         in if length readed \<noteq> cnt \<and> short_read_error d \<noteq> 0
            then Inl (short_read_error d)
            else Inr readed))"

text \<open>
  \<open>file::error::to_string\<close> asks \<open>FormatMessageA\<close> for the text of the code; the text is the
  platform's, and the model takes the branch where it has none.
\<close>

definition file_error_to_string :: "nat \<Rightarrow> string" where
  "file_error_to_string mycode = ''Unknown system error.''"

section \<open>db_1cd_8x.cpp: pages\<close>

text \<open>
  \<open>mem_get\<close> reads a value of an integer type at a pointer: on the little-endian targets
  of the library, the first byte is the least significant.
\<close>

fun mem_get :: "byte list \<Rightarrow> 'a::len word" where
  "mem_get [] = 0"
| "mem_get (b # bs) = ucast b + 256 * mem_get bs"

datatype errors = errors_none | errors_file_system | errors_bad_file | errors_version

record pages_error =
  mycode :: errors
  file_error :: nat

definition error_none :: pages_error where
  "error_none = \<lparr>mycode = errors_none, file_error = 0\<rparr>"

definition error_code :: "errors \<Rightarrow> pages_error" where
  "error_code c = \<lparr>mycode = c, file_error = 0\<rparr>"

definition error_file :: "nat \<Rightarrow> pages_error" where
  "error_file fe = \<lparr>mycode = errors_file_system, file_error = fe\<rparr>"

record db_hdr =
  hdr_sig :: "byte list"
  hdr_version :: u32
  hdr_length :: u32
  hdr_unknown :: u32
  hdr_page_size :: u32

definition db_hdr_zero :: db_hdr where
  "db_hdr_zero =
     \<lparr>hdr_sig = replicate 8 0, hdr_version = 0, hdr_length = 0, hdr_unknown = 0,
      hdr_page_size = 0\<rparr>"

definition db_hdr_of_bytes :: "byte list \<Rightarrow> db_hdr" where
  "db_hdr_of_bytes bs =
     \<lparr>hdr_sig = take 8 bs,
      hdr_version = mem_get (take 4 (drop 8 bs)),
      hdr_length = mem_get (take 4 (drop 12 bs)),
      hdr_unknown = mem_get (take 4 (drop 16 bs)),
      hdr_page_size = mem_get (take 4 (drop 20 bs))\<rparr>"

text \<open>
  The 24 bytes of the packed struct \<open>db_hdr\<close> in memory: the 8 bytes of \<open>sig\<close> (a shorter
  list stands for an array that ends in zero bytes) and the four \<open>uint32_t\<close>, least
  significant byte first.
\<close>

definition u32_bytes :: "u32 \<Rightarrow> byte list" where
  "u32_bytes w = [ucast w, ucast (drop_bit 8 w), ucast (drop_bit 16 w), ucast (drop_bit 24 w)]"

definition db_hdr_bytes :: "db_hdr \<Rightarrow> byte list" where
  "db_hdr_bytes h =
     take 8 (hdr_sig h @ replicate 8 0) @ u32_bytes (hdr_version h) @ u32_bytes (hdr_length h) @
     u32_bytes (hdr_unknown h) @ u32_bytes (hdr_page_size h)"

text \<open>The bytes of \<open>"1CDBMSV8"\<close>.\<close>

definition signature :: "byte list" where
  "signature = [0x31, 0x43, 0x44, 0x42, 0x4D, 0x53, 0x56, 0x38]"

text \<open>
  A pointer into \<open>cache_data\<close> is its offset from \<open>cache_data.data()\<close>. The sizes of the
  vectors are natural numbers: the model does not bound what \<open>resize\<close> can allocate.
\<close>

record pages =
  db_hdr :: db_hdr
  file_iface :: "file"
  cache_size :: nat
  cache_data :: "byte list"
  cache_pool :: "nat list"
  cache_queue :: "(u32, nat) twoq"

definition pages_init :: "nat \<Rightarrow> pages" where
  "pages_init cached =
     \<lparr>db_hdr = db_hdr_zero, file_iface = file_init, cache_size = cached, cache_data = [],
      cache_pool = [], cache_queue = twoq_init cached\<rparr>"

definition pages_new :: "bool \<Rightarrow> nat \<Rightarrow> failure + pages" where
  "pages_new ndebug cached =
     (case twoq_new ndebug cached :: failure + (u32, nat) twoq of
        Inl e \<Rightarrow> Inl e
      | Inr q \<Rightarrow> Inr ((pages_init cached)\<lparr>cache_queue := q\<rparr>))"

definition is_valid :: "pages \<Rightarrow> bool" where
  "is_valid p \<longleftrightarrow> file_is_valid (file_iface p) \<and> cache_data p \<noteq> [] \<and> cache_pool p \<noteq> []"

definition cache_init :: "pages \<Rightarrow> nat \<Rightarrow> pages" where
  "cache_init p page_size =
     p\<lparr>cache_data := replicate (page_size * (cache_size p + 1)) 0,
       cache_pool :=
         (if page_size * (cache_size p + 1) = 0 then []
          else map (\<lambda>i. i * page_size) [0..<cache_size p + 1]),
       cache_queue := twoq_clear (cache_queue p)\<rparr>"

text \<open>\<open>file::read\<close> writes the bytes it read at the pointer it is given.\<close>

definition store :: "byte list \<Rightarrow> nat \<Rightarrow> byte list \<Rightarrow> byte list" where
  "store mem ptr bytes = take ptr mem @ bytes @ drop (ptr + length bytes) mem"

definition load :: "byte list \<Rightarrow> nat \<Rightarrow> nat \<Rightarrow> byte list" where
  "load mem ptr cnt = take cnt (drop ptr mem)"

text \<open>
  \<open>open\<close> reads the first 24 bytes of the file over \<open>db_hdr\<close>, which holds what the
  constructor or an earlier \<open>open\<close> left there. Every check that fails returns its error
  and leaves the header as it is at that point.
\<close>

definition page_size_allowed :: "u32 \<Rightarrow> bool" where
  "page_size_allowed ps \<longleftrightarrow>
     \<not> (ps \<noteq> 4096 \<and> ps \<noteq> 8192 \<and> ps \<noteq> 16384 \<and> ps \<noteq> 32768 \<and> ps \<noteq> 65536)"

definition pages_open :: "bool \<Rightarrow> disk \<Rightarrow> pages \<Rightarrow> failure + (pages_error \<times> pages)" where
  "pages_open ndebug d p =
     (if \<not> ndebug \<and> is_valid p then Inl Assertion_failed
      else
        (case file_open d file_init of
           (fe, tmp_iface) \<Rightarrow>
             if fe \<noteq> 0 then Inr (error_file fe, p)
             else
               (case file_read d tmp_iface 24 0 of
                  Inl fe \<Rightarrow> Inr (error_file fe, p)
                | Inr readed \<Rightarrow>
                    (let p1 = p\<lparr>db_hdr :=
                                db_hdr_of_bytes (store (db_hdr_bytes (db_hdr p)) 0 readed)\<rparr>
                     in if hdr_sig (db_hdr p1) \<noteq> signature
                        then Inr (error_code errors_bad_file, p1)
                        else if hdr_version (db_hdr p1) \<noteq> 0x000E0208 \<and>
                                hdr_version (db_hdr p1) \<noteq> 0x00080308
                        then Inr (error_code errors_version, p1)
                        else
                          (let forced = (hdr_version (db_hdr p1) = 0x000E0208);
                               p2 = (if forced
                                     then p1\<lparr>db_hdr := (db_hdr p1)\<lparr>hdr_page_size := 4096\<rparr>\<rparr>
                                     else p1)
                           in if \<not> forced \<and> \<not> page_size_allowed (hdr_page_size (db_hdr p2))
                              then Inr (error_code errors_bad_file, p2)
                              else
                                (let fsize = file_size tmp_iface;
                                     ps = unat (hdr_page_size (db_hdr p2))
                                 in if fsize mod ps \<noteq> 0 \<or>
                                       fsize div ps \<noteq> unat (hdr_length (db_hdr p2)) \<or>
                                       hdr_length (db_hdr p2) = 0
                                    then Inr (error_code errors_bad_file, p2)
                                    else Inr (error_none,
                                              (cache_init p2 ps)\<lparr>file_iface := tmp_iface\<rparr>)))))))"

definition pages_version :: "pages \<Rightarrow> u32" where
  "pages_version p = hdr_version (db_hdr p)"

definition pages_page_size :: "pages \<Rightarrow> nat" where
  "pages_page_size p = unat (hdr_page_size (db_hdr p))"

definition pages_size :: "pages \<Rightarrow> u32" where
  "pages_size p = hdr_length (db_hdr p)"

text \<open>
  \<open>view\<close> returns its pointer or ends in a failure; in both cases the object is left in
  the state that comes back with the result. \<open>index_\<close> is a \<open>uint32_t\<close>, \<open>count_\<close> and
  \<open>pos_\<close> are \<open>size_t\<close> (64 bits).
\<close>

definition view ::
  "bool \<Rightarrow> disk \<Rightarrow> pages \<Rightarrow> u32 \<Rightarrow> size_t \<Rightarrow> size_t \<Rightarrow> (failure + nat) \<times> pages" where
  "view ndebug d p index cnt pos =
     (if \<not> ndebug \<and> \<not> is_valid p then (Inl Assertion_failed, p)
      else if index = 0 \<or> index \<ge> hdr_length (db_hdr p)
      then (Inl (Thrown ''Invalid page index to view.''), p)
      else if pos \<ge> ucast (hdr_page_size (db_hdr p)) \<or>
              pos + cnt > ucast (hdr_page_size (db_hdr p)) \<or>
              pos + cnt < pos
      then (Inl (Thrown ''Requested data interval to view exceeds page size.''), p)
      else
        (case twoq_find (cache_queue p) index of
           (Some ptr, q) \<Rightarrow> (Inr (ptr + unat pos), p\<lparr>cache_queue := q\<rparr>)
         | (None, q) \<Rightarrow>
             (let p0 = p\<lparr>cache_queue := q\<rparr>
              in if cache_pool p0 = []
                 then (Inl (if ndebug then Undefined_behaviour else Assertion_failed), p0)
                 else
                   (let page_from_pool = last (cache_pool p0);
                        pos_in_file = unat (hdr_page_size (db_hdr p0)) * unat index
                    in case file_read d (file_iface p0) (unat (hdr_page_size (db_hdr p0)))
                              pos_in_file of
                         Inl fe \<Rightarrow>
                           (Inl (Thrown (''Error while reading page from file: '' @
                                         file_error_to_string fe)), p0)
                       | Inr bytes \<Rightarrow>
                           (let p1 = p0\<lparr>cache_data := store (cache_data p0) page_from_pool bytes\<rparr>
                            in case twoq_push (cache_queue p1) (index, page_from_pool) of
                                 Inl e \<Rightarrow> (Inl e, p1)
                               | Inr (freed_page, q') \<Rightarrow>
                                   (let p2 = p1\<lparr>cache_queue := q',
                                                cache_pool := butlast (cache_pool p1)\<rparr>
                                    in case freed_page of
                                         None \<Rightarrow> (Inr (page_from_pool + unat pos), p2)
                                       | Some freed \<Rightarrow>
                                           if \<not> ndebug \<and> \<not> length (cache_pool p2) < cache_size p2
                                           then (Inl Assertion_failed, p2)
                                           else (Inr (page_from_pool + unat pos),
                                                 p2\<lparr>cache_pool := cache_pool p2 @ [snd freed]\<rparr>)))))))"

text \<open>\<open>read\<close> copies \<open>count_\<close> bytes from the pointer that \<open>view\<close> returns.\<close>

definition pages_read ::
  "bool \<Rightarrow> disk \<Rightarrow> pages \<Rightarrow> u32 \<Rightarrow> size_t \<Rightarrow> size_t \<Rightarrow> (failure + byte list) \<times> pages" where
  "pages_read ndebug d p index cnt pos =
     (case view ndebug d p index cnt pos of
        (Inl e, p') \<Rightarrow> (Inl e, p')
      | (Inr ptr, p') \<Rightarrow> (Inr (load (cache_data p') ptr (unat cnt)), p'))"

text \<open>
  A client of \<open>pages\<close>: a sequence of \<open>view\<close> calls \<open>(index, count, offset)\<close> on one object.
  After each call the client looks at the \<open>count\<close> bytes at the pointer it got; the result
  is the list of these byte strings, or the first failure.
\<close>

fun view_all ::
  "bool \<Rightarrow> disk \<Rightarrow> pages \<Rightarrow> (u32 \<times> size_t \<times> size_t) list \<Rightarrow> failure + byte list list" where
  "view_all ndebug d p [] = Inr []"
| "view_all ndebug d p ((index, cnt, pos) # calls) =
     (case view ndebug d p index cnt pos of
        (Inl e, p') \<Rightarrow> Inl e
      | (Inr ptr, p') \<Rightarrow>
          (case view_all ndebug d p' calls of
             Inl e \<Rightarrow> Inl e
           | Inr rest \<Rightarrow> Inr (load (cache_data p') ptr (unat cnt) # rest)))"

text \<open>
  The invariants of a \<open>pages\<close> object. \<open>pool_inv\<close>: the 2Q queue is well formed for the
  capacity \<open>cache_size\<close>, and the free pool and the entries of \<open>in\<close> and \<open>main\<close> together
  count \<open>cache_size + 1\<close> slots. \<open>pages_inv\<close>, for an object opened on the disk \<open>d\<close>: the
  header describes the file, \<open>cache_data\<close> has \<open>cache_size + 1\<close> slots of one page, every
  slot is either in the free pool or held by exactly one entry of the queue, and the slot
  of an entry with key \<open>k\<close> holds the bytes of page \<open>k\<close> of the file.
\<close>

definition queue_slots :: "pages \<Rightarrow> nat" where
  "queue_slots p =
     length (fifo_items (twoq_in (cache_queue p))) + length (lru_items (twoq_main (cache_queue p)))"

definition pool_inv :: "pages \<Rightarrow> bool" where
  "pool_inv p \<longleftrightarrow>
     twoq_inv (cache_size p) (cache_queue p) \<and>
     length (cache_pool p) + queue_slots p = cache_size p + 1"

definition cached :: "pages \<Rightarrow> (u32 \<times> nat) list" where
  "cached p = fifo_items (twoq_in (cache_queue p)) @ lru_items (twoq_main (cache_queue p))"

definition pages_inv :: "disk \<Rightarrow> pages \<Rightarrow> bool" where
  "pages_inv d p \<longleftrightarrow>
     twoq_inv (cache_size p) (cache_queue p) \<and>
     file_handle (file_iface p) \<and>
     0 < pages_page_size p \<and>
     length (disk_bytes d) = unat (pages_size p) * pages_page_size p \<and>
     length (cache_data p) = pages_page_size p * (cache_size p + 1) \<and>
     mset (cache_pool p) + mset (map snd (cached p)) =
       mset (map (\<lambda>i. i * pages_page_size p) [0..<cache_size p + 1]) \<and>
     (\<forall>(k, slot) \<in> set (cached p).
        load (cache_data p) slot (pages_page_size p) =
        load (disk_bytes d) (unat k * pages_page_size p) (pages_page_size p))"

text \<open>The two argument checks of \<open>view\<close>, both passed.\<close>

definition view_args_ok :: "pages \<Rightarrow> u32 \<Rightarrow> size_t \<Rightarrow> size_t \<Rightarrow> bool" where
  "view_args_ok p index cnt pos \<longleftrightarrow>
     \<not> (index = 0 \<or> index \<ge> hdr_length (db_hdr p)) \<and>
     \<not> (pos \<ge> ucast (hdr_page_size (db_hdr p)) \<or>
        pos + cnt > ucast (hdr_page_size (db_hdr p)) \<or>
        pos + cnt < pos)"

text \<open>
  A database of two pages in the format 8.3.8 with pages of 4096 bytes: the header page
  and one page of bytes 7. \<open>pages_opened\<close> is the object that \<open>open\<close> makes of a new
  \<open>pages (4)\<close> on it. \<open>disk_failing\<close> is the same file on a device whose reads fail with
  \<open>ERROR_CRC\<close>.
\<close>

definition hdr_838 :: db_hdr where
  "hdr_838 =
     \<lparr>hdr_sig = signature, hdr_version = 0x00080308, hdr_length = 2, hdr_unknown = 0,
      hdr_page_size = 4096\<rparr>"

definition disk_2_pages :: disk where
  "disk_2_pages =
     \<lparr>disk_bytes =
        signature @ [0x08, 0x03, 0x08, 0x00] @ [2, 0, 0, 0] @ [0, 0, 0, 0] @ [0x00, 0x10, 0, 0] @
        replicate 4072 0 @ replicate 4096 7,
      open_error = 0, read_error = 0, short_read_error = 0\<rparr>"

definition disk_failing :: disk where
  "disk_failing = disk_2_pages\<lparr>read_error := 23\<rparr>"

definition pages_opened :: pages where
  "pages_opened =
     \<lparr>db_hdr = hdr_838,
      file_iface = \<lparr>file_handle = True, file_size = 8192\<rparr>,
      cache_size = 4,
      cache_data = replicate 20480 0,
      cache_pool = [0, 4096, 8192, 12288, 16384],
      cache_queue =
        \<lparr>twoq_in = \<lparr>fifo_max_size = 1, fifo_items = [], fifo_next_item = 0\<rparr>,
         twoq_out = \<lparr>fifo_max_size = 2, fifo_items = [], fifo_next_item = 0\<rparr>,
         twoq_main = \<lparr>lru_max_size = 3, lru_items = []\<rparr>\<rparr>\<rparr>"

text \<open>\<open>pages_opened\<close> after \<open>view (1, 16, 0)\<close>: page 1 is in the last slot and in \<open>in\<close>.\<close>

definition pages_viewed :: pages where
  "pages_viewed =
     \<lparr>db_hdr = hdr_838,
      file_iface = \<lparr>file_handle = True, file_size = 8192\<rparr>,
      cache_size = 4,
      cache_data = replicate 16384 0 @ replicate 4096 7,
      cache_pool = [0, 4096, 8192, 12288],
      cache_queue =
        \<lparr>twoq_in = \<lparr>fifo_max_size = 1, fifo_items = [(1, 16384)], fifo_next_item = 1\<rparr>,
         twoq_out = \<lparr>fifo_max_size = 2, fifo_items = [], fifo_next_item = 0\<rparr>,
         twoq_main = \<lparr>lru_max_size = 3, lru_items = []\<rparr>\<rparr>\<rparr>"

text \<open>
  What \<open>open\<close> makes of a new \<open>pages (1)\<close> on the same database, in a build without
  asserts: the capacities of \<open>in\<close>, \<open>out\<close> and \<open>main\<close> are 0, 0 and 1.
\<close>

definition pages_opened_1 :: pages where
  "pages_opened_1 =
     \<lparr>db_hdr = hdr_838,
      file_iface = \<lparr>file_handle = True, file_size = 8192\<rparr>,
      cache_size = 1,
      cache_data = replicate 8192 0,
      cache_pool = [0, 4096],
      cache_queue =
        \<lparr>twoq_in = \<lparr>fifo_max_size = 0, fifo_items = [], fifo_next_item = 0\<rparr>,
         twoq_out = \<lparr>fifo_max_size = 0, fifo_items = [], fifo_next_item = 0\<rparr>,
         twoq_main = \<lparr>lru_max_size = 1, lru_items = []\<rparr>\<rparr>\<rparr>"

text \<open>
  Four more files: a header with version 0 and nothing else; a header of the format 8.3.8
  with page size 5000; a database of the format 8.2.14 of one page, whose header leaves
  the page size field 0; and a header of the format 8.3.8 that announces two pages of
  4096 bytes in a file of one page.
\<close>

definition disk_bad_version :: disk where
  "disk_bad_version =
     \<lparr>disk_bytes =
        signature @ [0, 0, 0, 0] @ [1, 0, 0, 0] @ [0, 0, 0, 0] @ [0x00, 0x10, 0, 0],
      open_error = 0, read_error = 0, short_read_error = 0\<rparr>"

definition disk_bad_page_size :: disk where
  "disk_bad_page_size =
     \<lparr>disk_bytes =
        signature @ [0x08, 0x03, 0x08, 0x00] @ [1, 0, 0, 0] @ [0, 0, 0, 0] @ [0x88, 0x13, 0, 0] @
        replicate 4976 0,
      open_error = 0, read_error = 0, short_read_error = 0\<rparr>"

definition disk_8214 :: disk where
  "disk_8214 =
     \<lparr>disk_bytes =
        signature @ [0x08, 0x02, 0x0E, 0x00] @ [1, 0, 0, 0] @ [0, 0, 0, 0] @ [0, 0, 0, 0] @
        replicate 4072 0,
      open_error = 0, read_error = 0, short_read_error = 0\<rparr>"

definition disk_truncated :: disk where
  "disk_truncated =
     \<lparr>disk_bytes =
        signature @ [0x08, 0x03, 0x08, 0x00] @ [2, 0, 0, 0] @ [0, 0, 0, 0] @ [0x00, 0x10, 0, 0] @
        replicate 4072 0,
      open_error = 0, read_error = 0, short_read_error = 0\<rparr>"

text \<open>
  A file of 10 bytes, the signature and half of a version, on a platform where the short
  read leaves the last error 0; and the same file where an earlier call has left the
  last error 2.
\<close>

definition disk_short :: disk where
  "disk_short =
     \<lparr>disk_bytes = signature @ [0x08, 0x03],
      open_error = 0, read_error = 0, short_read_error = 0\<rparr>"

definition disk_short_stale :: disk where
  "disk_short_stale = disk_short\<lparr>short_read_error := 2\<rparr>"

text \<open>The empty file, where reading nothing leaves the last error 0.\<close>

definition disk_empty :: disk where
  "disk_empty = \<lparr>disk_bytes = [], open_error = 0, read_error = 0, short_read_error = 0\<rparr>"

text \<open>
  The condition under which \<open>open\<close> gets to look at the header: \<open>file::open\<close> succeeds and
  the read of the first 24 bytes reports no error, which a read of fewer bytes does when
  the last error is 0. The header it then looks at: the bytes of the file laid over the
  header that the object held before. \<open>disk_hdr\<close> is the header of a file of 24 bytes or
  more.
\<close>

definition hdr_read_ok :: "disk \<Rightarrow> bool" where
  "hdr_read_ok d \<longleftrightarrow>
     open_error d = 0 \<and> read_error d = 0 \<and>
     (24 \<le> length (disk_bytes d) \<or> short_read_error d = 0)"

definition hdr_after_read :: "disk \<Rightarrow> pages \<Rightarrow> db_hdr" where
  "hdr_after_read d p =
     db_hdr_of_bytes (store (db_hdr_bytes (db_hdr p)) 0 (take 24 (disk_bytes d)))"

definition disk_hdr :: "disk \<Rightarrow> db_hdr" where
  "disk_hdr d = db_hdr_of_bytes (take 24 (disk_bytes d))"

section \<open>db_1c_8x.h: fields and records\<close>

text \<open>
  A \<open>std::wstring\<close> is a list of 16-bit code units (\<open>wchar_t\<close> has two bytes on the targets
  of the library). The lengths in \<open>fparams\<close> are \<open>size_t\<close>, and so is every size computed
  from them: the arithmetic is that of 64-bit words.
\<close>

type_synonym wstring = "u16 list"

datatype ftype =
    ftype_unknown
  | ftype_binary
  | ftype_boolean
  | ftype_digit
  | ftype_str_fix
  | ftype_str_var
  | ftype_version
  | ftype_str_blob
  | ftype_bin_blob
  | ftype_datetime

record fparams =
  fparams_name :: wstring
  fparams_type :: ftype
  null_exists :: bool
  fparams_length :: size_t
  precision :: size_t
  case_sens :: bool

definition binary_size :: "size_t \<Rightarrow> size_t" where
  "binary_size len = len"

definition boolean_size :: "size_t \<Rightarrow> size_t" where
  "boolean_size len = 1"

definition digit_size :: "size_t \<Rightarrow> size_t" where
  "digit_size len = (len + 2) div 2"

definition str_fix_size :: "size_t \<Rightarrow> size_t" where
  "str_fix_size len = len * 2"

definition str_var_size :: "size_t \<Rightarrow> size_t" where
  "str_var_size len = len * 2 + 2"

definition version_size :: "size_t \<Rightarrow> size_t" where
  "version_size len = 16"

definition str_blob_size :: "size_t \<Rightarrow> size_t" where
  "str_blob_size len = 8"

definition bin_blob_size :: "size_t \<Rightarrow> size_t" where
  "bin_blob_size len = 8"

definition datetime_size :: "size_t \<Rightarrow> size_t" where
  "datetime_size len = 7"

record helper =
  helper_params :: fparams
  helper_shift :: size_t
  helper_size :: size_t

text \<open>
  \<open>prepare_fields\<close>: the body of the loop computes the size of one field (the \<open>switch\<close>),
  the loop threads \<open>index\<close>, \<open>shift\<close> and the members \<open>fields\<close> and \<open>indexes\<close>.
\<close>

definition field_size :: "fparams \<Rightarrow> failure + size_t" where
  "field_size prm =
     (let sz = (if null_exists prm then 1 else 0)
      in case fparams_type prm of
           ftype_binary \<Rightarrow> Inr (sz + binary_size (fparams_length prm))
         | ftype_boolean \<Rightarrow> Inr (sz + boolean_size (fparams_length prm))
         | ftype_digit \<Rightarrow> Inr (sz + digit_size (fparams_length prm))
         | ftype_str_fix \<Rightarrow> Inr (sz + str_fix_size (fparams_length prm))
         | ftype_str_var \<Rightarrow> Inr (sz + str_var_size (fparams_length prm))
         | ftype_version \<Rightarrow> Inr (sz + version_size (fparams_length prm))
         | ftype_str_blob \<Rightarrow> Inr (sz + str_blob_size (fparams_length prm))
         | ftype_bin_blob \<Rightarrow> Inr (sz + bin_blob_size (fparams_length prm))
         | ftype_datetime \<Rightarrow> Inr (sz + datetime_size (fparams_length prm))
         | ftype_unknown \<Rightarrow> Inl (Thrown ''Unknown table field type in table record.''))"

fun prepare_loop ::
  "fparams list \<Rightarrow> u32 \<Rightarrow> size_t \<Rightarrow> helper list \<Rightarrow> (wstring \<rightharpoonup> u32) \<Rightarrow>
   failure + (size_t \<times> helper list \<times> (wstring \<rightharpoonup> u32))" where
  "prepare_loop [] index shift flds indexes = Inr (shift, flds, indexes)"
| "prepare_loop (prm # rest) index shift flds indexes =
     (case field_size prm of
        Inl e \<Rightarrow> Inl e
      | Inr sz \<Rightarrow>
          prepare_loop rest (index + 1) (shift + sz)
            (flds @ [\<lparr>helper_params = prm, helper_shift = shift, helper_size = sz\<rparr>])
            (indexes(fparams_name prm \<mapsto> index)))"

definition prepare_fields ::
  "fparams list \<Rightarrow> failure + (size_t \<times> helper list \<times> (wstring \<rightharpoonup> u32))" where
  "prepare_fields params =
     (if length params > 2 ^ 32 - 1
      then Inl (Thrown ''Table fields count exceeds maximum allowed value.'')
      else
        (case prepare_loop params 0 1 [] Map.empty of
           Inl e \<Rightarrow> Inl e
         | Inr (shift, flds, indexes) \<Rightarrow>
             (let min_rec_size = 1 + 4
              in Inr (if shift < min_rec_size then min_rec_size else shift, flds, indexes))))"

text \<open>The value \<open>prepare_fields\<close> returns: the size of one record.\<close>

definition rec_size :: "fparams list \<Rightarrow> failure + size_t" where
  "rec_size params =
     (case prepare_fields params of
        Inl e \<Rightarrow> Inl e
      | Inr (shift, flds, indexes) \<Rightarrow> Inr shift)"

text \<open>
  The width of a slot in natural numbers, by type and declared length: \<open>slot_width\<close> as
  the code computes it, with the width of a digit rounded down. \<open>column_width\<close> adds the
  null flag.
\<close>

definition slot_width :: "ftype \<Rightarrow> nat \<Rightarrow> nat" where
  "slot_width t len =
     (case t of
        ftype_binary \<Rightarrow> len
      | ftype_boolean \<Rightarrow> 1
      | ftype_digit \<Rightarrow> (len + 2) div 2
      | ftype_str_fix \<Rightarrow> len * 2
      | ftype_str_var \<Rightarrow> len * 2 + 2
      | ftype_version \<Rightarrow> 16
      | ftype_str_blob \<Rightarrow> 8
      | ftype_bin_blob \<Rightarrow> 8
      | ftype_datetime \<Rightarrow> 7
      | ftype_unknown \<Rightarrow> 0)"

definition column_width :: "fparams \<Rightarrow> nat" where
  "column_width prm =
     (if null_exists prm then 1 else 0) + slot_width (fparams_type prm) (unat (fparams_length prm))"

text \<open>
  The stride as the specification words it: one tombstone byte plus, for every column,
  the null flag and the width of the table of section 4.6, where a digit of length \<open>n\<close>
  takes \<open>(n + 2) / 2\<close> bytes rounded up; at least \<open>1 + 4\<close> bytes.
\<close>

definition spec_slot_width :: "ftype \<Rightarrow> nat \<Rightarrow> nat" where
  "spec_slot_width t len = (if t = ftype_digit then (len + 2 + 1) div 2 else slot_width t len)"

definition spec_stride :: "fparams list \<Rightarrow> nat" where
  "spec_stride params =
     max (1 + 4)
       (1 + (\<Sum>prm\<leftarrow>params.
               (if null_exists prm then 1 else 0) +
               spec_slot_width (fparams_type prm) (unat (fparams_length prm))))"

text \<open>A table with one column: a digit of length 9 that cannot be null.\<close>

definition digit_9 :: fparams where
  "digit_9 =
     \<lparr>fparams_name = [0x4E], fparams_type = ftype_digit, null_exists = False,
      fparams_length = 9, precision = 0, case_sens = False\<rparr>"

text \<open>A table with one column: binary data of \<open>2^63\<close> bytes that cannot be null.\<close>

definition binary_huge :: fparams where
  "binary_huge =
     \<lparr>fparams_name = [0x42], fparams_type = ftype_binary, null_exists = False,
      fparams_length = 0x8000000000000000, precision = 0, case_sens = False\<rparr>"

section \<open>db_1c_8x.h: blob\<close>

text \<open>
  \<open>blob\<close> is a template over the type of the object it reads from; all it uses of the
  object are \<open>size ()\<close> and \<open>read (dst, count, pos)\<close>, which either fills the buffer with
  \<open>count\<close> bytes or throws. \<open>mem_object\<close> is an object with given contents, whose \<open>read\<close>
  makes the interval check of \<open>db_1c_83::object::read\<close>.
\<close>

record object =
  obj_size :: nat
  obj_read :: "nat \<Rightarrow> nat \<Rightarrow> failure + byte list"

definition mem_object :: "byte list \<Rightarrow> object" where
  "mem_object bytes =
     \<lparr>obj_size = length bytes,
      obj_read = (\<lambda>cnt pos.
        if pos \<ge> length bytes \<or> pos + cnt > length bytes
        then Inl (Thrown ''Requested interval to read exceeds object size.'')
        else Inr (take cnt (drop pos bytes)))\<rparr>"



definition blob_new :: "object \<Rightarrow> failure + object" where
  "blob_new obj =
     (if obj_size obj mod 256 \<noteq> 0 \<or> obj_size obj div 256 > 2 ^ 32 - 1
      then Inl (Thrown ''Invalid BLOB-object size.'')
      else Inr obj)"













subsection \<open>The table records cursor (\<open>db_1c_8x::records\<close>)\<close>

text \<open>
  The members of \<open>records\<close>; the buffer \<open>record\<close> is \<open>record_buf\<close> here. The object read
  through \<open>obj_iface\<close> is given, as for the BLOB.
\<close>

record records =
  rec_fields :: "helper list"
  rec_indexes :: "wstring \<rightharpoonup> u32"
  obj_iface :: object
  record_buf :: "byte list"
  records_count :: u32
  last_index :: "u32 option"

definition records_new :: "object \<Rightarrow> fparams list \<Rightarrow> failure + records" where
  "records_new obj params =
     (case prepare_fields params of
        Inl e \<Rightarrow> Inl e
      | Inr (rec_sz, flds, indexes) \<Rightarrow>
          (let rec_cnt = obj_size obj div unat rec_sz
           in if obj_size obj mod unat rec_sz \<noteq> 0 \<or> rec_cnt > 2 ^ 32 - 1
              then Inl (Thrown ''Invalid table records object size.'')
              else Inr \<lparr>rec_fields = flds, rec_indexes = indexes, obj_iface = obj,
                         record_buf = replicate (unat rec_sz) 0,
                         records_count = word_of_nat rec_cnt,
                         last_index = None\<rparr>))"

definition seek_success :: "records \<Rightarrow> bool" where
  "seek_success r = (last_index r \<noteq> None)"

definition records_size :: "records \<Rightarrow> u32" where
  "records_size r = records_count r"

text \<open>
  \<open>seek\<close> resets \<open>last_index\<close> before it reads and sets it after the read. A read that
  throws leaves the cursor without a position; the buffer, which nothing can observe in
  that state, is kept as it was.
\<close>

definition seek :: "records \<Rightarrow> u32 \<Rightarrow> (failure + unit) \<times> records" where
  "seek r index =
     (if index \<ge> records_size r
      then (Inl (Thrown ''Requested table record number exceeds object size.''), r)
      else if last_index r = Some index
      then (Inr (), r)
      else
        (case obj_read (obj_iface r) (length (record_buf r))
                (length (record_buf r) * unat index) of
           Inl e \<Rightarrow> (Inl e, r\<lparr>last_index := None\<rparr>)
         | Inr bytes \<Rightarrow> (Inr (), r\<lparr>record_buf := bytes, last_index := Some index\<rparr>)))"

definition is_deleted :: "records \<Rightarrow> failure + bool" where
  "is_deleted r =
     (if \<not> seek_success r
      then Inl (Thrown ''Attempting to access a table entry before reading it.'')
      else Inr ((mem_get (take 1 (record_buf r)) :: byte) = 1))"

text \<open>
  The template parameter \<open>Tvalue_type\<close> of \<open>get_field\<close>: its \<open>type ()\<close>, its constructor for
  a null value and its constructor from the bytes of the slot. The pointer \<open>buff_\<close> is the
  list of the bytes of the record from the slot on.
\<close>

record 'v value_class =
  class_type :: ftype
  class_null :: "fparams \<Rightarrow> 'v"
  class_make :: "bool \<Rightarrow> fparams \<Rightarrow> byte list \<Rightarrow> size_t \<Rightarrow> failure + 'v"

definition get_field ::
  "bool \<Rightarrow> 'v value_class \<Rightarrow> records \<Rightarrow> u32 \<Rightarrow> failure + 'v" where
  "get_field ndebug cls r index =
     (if \<not> seek_success r
      then Inl (Thrown ''Attempting to access a table entry before reading it.'')
      else if \<not> ndebug \<and> is_deleted r \<noteq> Inr False
      then Inl Assertion_failed
      else if unat index \<ge> length (rec_fields r)
      then Inl Std_out_of_range
      else
        (let helper = rec_fields r ! unat index;
             params = helper_params helper
         in if fparams_type params \<noteq> class_type cls
            then Inl (Thrown ''Attempting reads table field with wrong type.'')
            else
              (let buff = drop (unat (helper_shift helper)) (record_buf r);
                   sz = helper_size helper
               in if null_exists params
                  then
                    (case buff of
                       [] \<Rightarrow> Inl Undefined_behaviour
                     | has_value # buff' \<Rightarrow>
                         if has_value = 0 then Inr (class_null cls params)
                         else class_make cls ndebug params buff' (sz - 1))
                  else class_make cls ndebug params buff sz)))"

text \<open>The class \<open>field::boolean\<close>: the parameters and the optional value \<open>exists\<close>.\<close>

record boolean =
  boolean_params :: fparams
  boolean_exists :: "bool option"

definition boolean_null :: "fparams \<Rightarrow> boolean" where
  "boolean_null params = \<lparr>boolean_params = params, boolean_exists = None\<rparr>"

definition boolean_make :: "bool \<Rightarrow> fparams \<Rightarrow> byte list \<Rightarrow> size_t \<Rightarrow> failure + boolean" where
  "boolean_make ndebug params buff sz =
     (if \<not> ndebug \<and> sz \<noteq> boolean_size (fparams_length params)
      then Inl Assertion_failed
      else
        (case buff of
           [] \<Rightarrow> Inl Undefined_behaviour
         | b # rest \<Rightarrow> Inr \<lparr>boolean_params = params, boolean_exists = Some (b \<noteq> 0)\<rparr>))"

definition boolean_class :: "boolean value_class" where
  "boolean_class =
     \<lparr>class_type = ftype_boolean, class_null = boolean_null, class_make = boolean_make\<rparr>"

text \<open>
  A table of one column, a boolean that cannot be null, with two records of five bytes:
  record 0 holds \<open>true\<close>, record 1 is deleted.
\<close>

definition flag_column :: fparams where
  "flag_column =
     \<lparr>fparams_name = [0x46], fparams_type = ftype_boolean, null_exists = False,
      fparams_length = 0, precision = 0, case_sens = False\<rparr>"

definition flag_table :: object where
  "flag_table = mem_object ([0, 1, 0, 0, 0] @ [1, 0, 0, 0, 0])"

definition cursor_new :: records where
  "cursor_new =
     \<lparr>rec_fields = [\<lparr>helper_params = flag_column, helper_shift = 1, helper_size = 1\<rparr>],
      rec_indexes = [[0x46] \<mapsto> 0], obj_iface = flag_table,
      record_buf = [0, 0, 0, 0, 0], records_count = 2, last_index = None\<rparr>"

definition cursor_at_0 :: records where
  "cursor_at_0 = cursor_new\<lparr>record_buf := [0, 1, 0, 0, 0], last_index := Some 0\<rparr>"

definition cursor_at_1 :: records where
  "cursor_at_1 = cursor_new\<lparr>record_buf := [1, 0, 0, 0, 0], last_index := Some 1\<rparr>"

subsection \<open>Decompression (\<open>db_1cd_8x::blob_base::decompress\<close>)\<close>

text \<open>
  \<open>std::to_string\<close> of an \<open>int\<close>: the decimal digits, with a minus sign for a negative
  number.
\<close>

fun string_of_nat :: "nat \<Rightarrow> string" where
  "string_of_nat n =
     (if 10 \<le> n then string_of_nat (n div 10) else []) @ [char_of (n mod 10 + 48)]"

declare string_of_nat.simps [simp del]

definition to_string :: "int \<Rightarrow> string" where
  "to_string i = (if i < 0 then ''-'' @ string_of_nat (nat (- i)) else string_of_nat (nat i))"

text \<open>
  ZLIB is outside the repository and is a parameter here. \<open>z_stream\<close> has the fields that
  \<open>decompress\<close> reads and writes, \<open>next_in\<close> and \<open>next_out\<close> as offsets into \<open>src_\<close> and
  \<open>dst\<close>, and the internal state of the library. A library is the return code and the
  state of \<open>inflateInit2\<close>, the function \<open>inflate\<close> and the return code of \<open>inflateEnd\<close>.
  \<open>inflate\<close> gets the state, the input that is available and the room for output; it
  gives its return code, the new state, the number of bytes of input it took and the
  bytes of output it made. Taking more input or making more output than is available is
  against the contract of the library: it writes outside the buffers.
\<close>

record 's z_stream =
  total_in :: nat
  avail_in :: nat
  next_in :: nat
  total_out :: nat
  avail_out :: nat
  next_out :: nat
  internal :: 's

record 's zlib =
  inflateInit2 :: "int \<times> 's"
  inflate :: "'s \<Rightarrow> byte list \<Rightarrow> nat \<Rightarrow> int \<times> 's \<times> nat \<times> byte list"
  inflateEnd :: "'s \<Rightarrow> int"

definition Z_OK :: int where
  "Z_OK = 0"

definition Z_STREAM_END :: int where
  "Z_STREAM_END = 1"

definition zlib_error :: "int \<Rightarrow> failure" where
  "zlib_error res = Thrown (''ZLIB error code: '' @ to_string res)"

text \<open>\<open>std::vector::resize\<close>: cut, or fill with zero bytes.\<close>

definition resize :: "byte list \<Rightarrow> nat \<Rightarrow> byte list" where
  "resize v n = take n v @ replicate (n - length v) 0"

text \<open>
  One call of \<open>inflate\<close> on the stream: the counters of the stream move by what the library
  took and made, and the output is written into \<open>dst\<close> at \<open>next_out\<close>.
\<close>

definition inflate_call ::
  "'s zlib \<Rightarrow> byte list \<Rightarrow> 's z_stream \<Rightarrow> byte list \<Rightarrow>
   failure + (int \<times> 's z_stream \<times> byte list)" where
  "inflate_call z src strm dst =
     (case inflate z (internal strm) (take (avail_in strm) (drop (next_in strm) src))
             (avail_out strm) of
        (res, st, taken, made) \<Rightarrow>
          if taken > avail_in strm \<or> length made > avail_out strm \<or>
             next_out strm + avail_out strm > length dst
          then Inl Undefined_behaviour
          else Inr (res,
                 strm\<lparr>total_in := total_in strm + taken,
                      avail_in := avail_in strm - taken,
                      next_in := next_in strm + taken,
                      total_out := total_out strm + length made,
                      avail_out := avail_out strm - length made,
                      next_out := next_out strm + length made,
                      internal := st\<rparr>,
                 take (next_out strm) dst @ made @ drop (next_out strm + length made) dst))"

text \<open>
  The \<open>do \<dots> while (strm.avail_in != 0)\<close> of \<open>decompress\<close>. The result is \<open>None\<close> when the
  loop does not end.
\<close>

partial_function (option) inflate_loop ::
  "'s zlib \<Rightarrow> byte list \<Rightarrow> nat \<Rightarrow> 's z_stream \<Rightarrow> byte list \<Rightarrow> (failure + byte list) option"
  where
  "inflate_loop z src max_size strm dst =
     (case inflate_call z src strm dst of
        Inl e \<Rightarrow> Some (Inl e)
      | Inr (res, strm1, dst1) \<Rightarrow>
          if res = Z_STREAM_END
          then
            (let res' = inflateEnd z (internal strm1)
             in if res' \<noteq> Z_OK then Some (Inl (zlib_error res'))
                else Some (Inr (resize dst1 (total_out strm1))))
          else if res \<noteq> Z_OK then Some (Inl (zlib_error res))
          else
            (let strm2 = strm1\<lparr>avail_in := length src - total_in strm1,
                               next_in := total_in strm1\<rparr>
             in if length dst1 \<ge> max_size
                then Some (Inl (Thrown ''Decompressed by ZLIB data too large.''))
                else
                  (let max_increment = max_size - length dst1;
                       dst2 = (if max_increment < length dst1
                               then resize dst1 (length dst1 + max_increment)
                               else resize dst1 (length dst1 * 2));
                       strm3 = strm2\<lparr>avail_out := length dst2 - total_out strm2,
                                      next_out := total_out strm2\<rparr>
                   in if avail_in strm3 \<noteq> 0
                      then inflate_loop z src max_size strm3 dst2
                      else Some (Inl (Thrown
                             ''Data flow ended before it was decompressed by ZLIB.'')))))"

definition decompress ::
  "'s zlib \<Rightarrow> byte list \<Rightarrow> size_t \<Rightarrow> (failure + byte list) option" where
  "decompress z src max_size =
     (if length src = 0 then Some (Inr [])
      else
        (let max_size' = (if unat max_size > 2 ^ 32 - 1 then 2 ^ 32 - 1 else unat max_size)
         in if length src > max_size'
            then Some (Inl (Thrown ''Size of data to decompress by ZLIB too large.''))
            else
              (let dst = resize [] (length src);
                   strm = \<lparr>total_in = 0, avail_in = length src, next_in = 0,
                           total_out = 0, avail_out = length dst, next_out = 0,
                           internal = snd (inflateInit2 z)\<rparr>;
                   res = fst (inflateInit2 z)
               in if res \<noteq> Z_OK then Some (Inl (zlib_error res))
                  else inflate_loop z src max_size' strm dst)))"

text \<open>
  A library without state whose \<open>inflate\<close> takes all the input, makes no output and
  returns \<open>Z_OK\<close>, as ZLIB does on the one byte \<open>00\<close>, the start of a stored block that is
  cut before its length.
\<close>

definition zlib_hungry :: "unit zlib" where
  "zlib_hungry =
     \<lparr>inflateInit2 = (Z_OK, ()),
      inflate = (\<lambda>st input room. (Z_OK, (), length input, [])),
      inflateEnd = (\<lambda>st. Z_OK)\<rparr>"

section \<open>Properties\<close>

lemma item_find_le: "item_find xs k \<le> length xs"
  by (induction xs) auto

lemma item_find_end_iff: "item_find xs k = length xs \<longleftrightarrow> k \<notin> fst ` set xs"
proof (induction xs)
  case Nil
  show ?case by simp
next
  case (Cons x xs)
  then show ?case by auto
qed

lemma item_find_hit: "k \<in> fst ` set xs \<Longrightarrow> fst (xs ! item_find xs k) = k"
  by (induction xs) auto

lemma item_find_snoc_new:
  "k \<notin> fst ` set xs \<Longrightarrow> item_find (xs @ [(k, v)]) k = length xs"
  by (induction xs) auto

lemma fifo_find_None_iff: "fifo_find q k = None \<longleftrightarrow> k \<notin> fifo_keys q"
  by (simp add: fifo_find_def fifo_keys_def Let_def item_find_end_iff)

lemma fifo_inv_init: "fifo_inv (fifo_init n)"
  by (simp add: fifo_inv_def fifo_init_def)

lemma lru_inv_init: "lru_inv (lru_init n)"
  by (simp add: lru_inv_def lru_init_def)

lemma twoq_inv_init: "twoq_inv N (twoq_init N)"
  by (simp add: twoq_inv_def twoq_init_def fifo_inv_init lru_inv_init)
     (simp add: fifo_init_def lru_init_def)

lemma fifo_push_total:
  assumes "fifo_inv q" "1 \<le> fifo_max_size q"
  shows "\<exists>ev q'. fifo_push q x = Inr (ev, q') \<and> fifo_inv q' \<and> fifo_max_size q' = fifo_max_size q"
  using assms
  by (auto simp: fifo_push_def fifo_item_push_def fifo_inv_def Let_def)

lemma lru_push_total:
  assumes "lru_inv q" "1 \<le> lru_max_size q"
  shows "\<exists>ev q'. lru_push q x = Inr (ev, q') \<and> lru_inv q' \<and> lru_max_size q' = lru_max_size q"
  using assms
  by (auto simp: lru_push_def lru_item_push_def lru_inv_def split: list.splits)

lemma lru_find_inv:
  "lru_inv q \<Longrightarrow> lru_inv (snd (lru_find q k)) \<and> lru_max_size (snd (lru_find q k)) = lru_max_size q"
  using item_find_le [of "lru_items q" k]
  by (auto simp: lru_find_def lru_inv_def Let_def item_move_top_def)

lemma twoq_push_total:
  assumes "twoq_inv N q" "4 \<le> N"
  shows "\<exists>ev q'. twoq_push q x = Inr (ev, q') \<and> twoq_inv N q'"
proof -
  from assms have i: "fifo_inv (twoq_in q)" "1 \<le> fifo_max_size (twoq_in q)"
    and out: "fifo_inv (twoq_out q)" "1 \<le> fifo_max_size (twoq_out q)"
    and m: "lru_inv (twoq_main q)" "1 \<le> lru_max_size (twoq_main q)"
    by (auto simp: twoq_inv_def)
  from fifo_push_total [OF i, of x] obtain ev1 i' where
    1: "fifo_push (twoq_in q) x = Inr (ev1, i')" "fifo_inv i'"
       "fifo_max_size i' = fifo_max_size (twoq_in q)" by blast
  from lru_push_total [OF m, of x] obtain ev2 m' where
    2: "lru_push (twoq_main q) x = Inr (ev2, m')" "lru_inv m'"
       "lru_max_size m' = lru_max_size (twoq_main q)" by blast
  show ?thesis
  proof (cases ev1)
    case None
    with 1 2 assms(1) show ?thesis
      by (auto simp: twoq_push_def twoq_inv_def)
  next
    case (Some e)
    from fifo_push_total [OF out, of "(fst e, 0)"] obtain ev3 o' where
      3: "fifo_push (twoq_out q) (fst e, 0) = Inr (ev3, o')" "fifo_inv o'"
         "fifo_max_size o' = fifo_max_size (twoq_out q)" by blast
    with Some 1 2 assms(1) show ?thesis
      by (auto simp: twoq_push_def twoq_inv_def)
  qed
qed

lemma twoq_find_inv: "twoq_inv N q \<Longrightarrow> twoq_inv N (snd (twoq_find q k))"
  using lru_find_inv [of "twoq_main q" k]
  by (auto simp: twoq_find_def twoq_inv_def split: prod.splits option.splits)

lemma twoq_clear_inv: "twoq_inv N q \<Longrightarrow> twoq_inv N (twoq_clear q)"
  by (simp add: twoq_clear_def twoq_inv_def fifo_clear_def lru_clear_def fifo_inv_def lru_inv_def)

lemma twoq_run_total:
  "twoq_inv N q \<Longrightarrow> 4 \<le> N \<Longrightarrow> \<exists>q'. twoq_run q ops = Inr q' \<and> twoq_inv N q'"
proof (induction ops arbitrary: q)
  case Nil
  then show ?case by simp
next
  case (Cons op ops)
  show ?case
  proof (cases op)
    case (Push k v)
    from twoq_push_total [OF Cons.prems, of "(k, v)"] obtain ev q1 where
      "twoq_push q (k, v) = Inr (ev, q1)" "twoq_inv N q1" by blast
    with Cons.IH [of q1] Cons.prems(2) Push show ?thesis by simp
  next
    case (Find k)
    with Cons.IH [OF twoq_find_inv [OF Cons.prems(1)] Cons.prems(2)] show ?thesis by simp
  next
    case Clear
    with Cons.IH [OF twoq_clear_inv [OF Cons.prems(1)] Cons.prems(2)] show ?thesis by simp
  qed
qed

lemma twoq_push_small:
  "N < 4 \<Longrightarrow> twoq_push (twoq_init N) (k, v) = Inl Undefined_behaviour"
  by (simp add: twoq_push_def twoq_init_def fifo_init_def fifo_find_def fifo_push_def
      fifo_item_push_def)

lemma item_find_first:
  "i < length xs \<Longrightarrow> fst (xs ! i) = k \<Longrightarrow> (\<forall>j<i. fst (xs ! j) \<noteq> k) \<Longrightarrow> item_find xs k = i"
proof (induction xs arbitrary: i)
  case Nil
  then show ?case by simp
next
  case (Cons x xs)
  show ?case
  proof (cases i)
    case 0
    with Cons.prems show ?thesis by simp
  next
    case (Suc n)
    with Cons.prems have "fst x \<noteq> k" by auto
    moreover from Suc Cons.prems have "item_find xs k = n"
      by (intro Cons.IH) auto
    ultimately show ?thesis using Suc by simp
  qed
qed

lemma item_find_update_new:
  assumes "k \<notin> fst ` set xs" "n < length xs"
  shows "item_find (xs[n := (k, v)]) k = n"
proof (rule item_find_first)
  show "n < length (xs[n := (k, v)])" using assms by simp
  show "fst (xs[n := (k, v)] ! n) = k" using assms by simp
  show "\<forall>j<n. fst (xs[n := (k, v)] ! j) \<noteq> k"
  proof (intro allI impI)
    fix j assume "j < n"
    with assms have "xs[n := (k, v)] ! j = xs ! j" "xs ! j \<in> set xs" by auto
    with assms(1) show "fst (xs[n := (k, v)] ! j) \<noteq> k" by force
  qed
qed

lemma item_move_top_last: "xs \<noteq> [] \<Longrightarrow> item_move_top xs (length xs - 1) = xs"
  by (cases xs rule: rev_cases) (simp_all add: item_move_top_def)

lemma fifo_push_new_key:
  assumes "fifo_push q (k, v) = Inr (ev, q')" "k \<notin> fifo_keys q"
  shows "k \<in> fifo_keys q' \<and> fifo_find q' k = Some v"
proof (cases "length (fifo_items q) < fifo_max_size q")
  case True
  with assms show ?thesis
    by (auto simp: fifo_push_def fifo_item_push_def fifo_keys_def fifo_find_def
        item_find_snoc_new)
next
  case False
  define n where "n = (if fifo_next_item q = length (fifo_items q) then 0 else fifo_next_item q)"
  from False assms(1) have n: "n < length (fifo_items q)"
    and q': "q' = q\<lparr>fifo_items := (fifo_items q)[n := (k, v)], fifo_next_item := Suc n\<rparr>"
    by (auto simp: fifo_push_def fifo_item_push_def Let_def n_def split: if_splits)
  from assms(2) have "k \<notin> fst ` set (fifo_items q)" by (simp add: fifo_keys_def)
  from item_find_update_new [OF this n, of v] n q' show ?thesis
    by (auto simp: fifo_keys_def fifo_find_def set_update_memI
        intro!: image_eqI [where x = "(k, v)"])
qed

lemma fifo_push_key_present:
  assumes "fifo_push q (k, v) = Inr (ev, q')"
  shows "k \<in> fifo_keys q'"
proof -
  from assms have "(k, v) \<in> set (fifo_items q')"
    by (auto simp: fifo_push_def fifo_item_push_def Let_def set_update_memI split: if_splits)
  then show ?thesis by (force simp: fifo_keys_def)
qed

lemma fifo_push_evicted_mem:
  assumes "fifo_push q x = Inr (Some e, q')"
  shows "e \<in> set (fifo_items q)"
  using assms
  by (auto simp: fifo_push_def fifo_item_push_def Let_def split: if_splits)

lemma lru_find_miss: "k \<notin> lru_keys q \<Longrightarrow> lru_find q k = (None, q)"
  by (simp add: lru_find_def lru_keys_def item_find_end_iff)

lemma lru_push_new_key:
  assumes "lru_push q (k, v) = Inr (ev, q')" "k \<notin> lru_keys q"
  shows "(k, v) \<in> set (lru_items q') \<and> lru_find q' k = (Some v, q')"
proof -
  from assms(1) have "\<exists>ys. lru_items q' = ys @ [(k, v)] \<and> set ys \<subseteq> set (lru_items q)"
    by (auto simp: lru_push_def lru_item_push_def split: if_splits list.splits)
  then obtain ys where ys: "lru_items q' = ys @ [(k, v)]" "set ys \<subseteq> set (lru_items q)"
    by blast
  with assms(2) have "k \<notin> fst ` set ys" by (auto simp: lru_keys_def)
  then have "item_find (lru_items q') k = length (lru_items q') - 1"
    using ys(1) by (simp add: item_find_snoc_new)
  moreover have "lru_items q' \<noteq> []" using ys(1) by simp
  ultimately show ?thesis using ys(1) item_move_top_last [of "lru_items q'"]
    by (simp add: lru_find_def)
qed

text \<open>
  C9. The constructor of \<open>twoq\<close> gives \<open>in\<close> the capacity \<open>N div 4\<close>. For \<open>N < 4\<close> that is
  0: the \<open>assert (size_ >= 1)\<close> of \<open>fifo\<close> fails where asserts are active, and where they
  are compiled out the first \<open>push\<close> on the new cache reads \<open>*next_item\<close> in an empty vector.
  For \<open>N \<ge> 4\<close> the three capacities are at least 1, construction passes every assert, and
  every sequence of \<open>push\<close>, \<open>find\<close> and \<open>clear\<close> calls runs to its end.
\<close>

theorem twoq_defined_iff_capacity_ge_4:
  "fifo_max_size (twoq_in (twoq_init N :: ('k, 'v) twoq)) = N div 4 \<and>
   (N < 4 \<longrightarrow>
      fifo_max_size (twoq_in (twoq_init N :: ('k, 'v) twoq)) = 0 \<and>
      (twoq_new False N :: failure + ('k, 'v) twoq) = Inl Assertion_failed \<and>
      (twoq_new True N :: failure + ('k, 'v) twoq) = Inr (twoq_init N) \<and>
      (\<forall>k v. twoq_push (twoq_init N :: ('k, 'v) twoq) (k, v) = Inl Undefined_behaviour)) \<and>
   (4 \<le> N \<longrightarrow>
      1 \<le> fifo_max_size (twoq_in (twoq_init N :: ('k, 'v) twoq)) \<and>
      1 \<le> fifo_max_size (twoq_out (twoq_init N :: ('k, 'v) twoq)) \<and>
      1 \<le> lru_max_size (twoq_main (twoq_init N :: ('k, 'v) twoq)) \<and>
      (\<forall>ndebug. (twoq_new ndebug N :: failure + ('k, 'v) twoq) = Inr (twoq_init N)) \<and>
      (\<forall>ops. \<exists>q'. twoq_run (twoq_init N :: ('k, 'v) twoq) ops = Inr q'))"
proof (intro conjI impI allI)
  show "fifo_max_size (twoq_in (twoq_init N :: ('k, 'v) twoq)) = N div 4"
    by (simp add: twoq_init_def fifo_init_def)
next
  assume "N < 4"
  then show "fifo_max_size (twoq_in (twoq_init N :: ('k, 'v) twoq)) = 0"
    by (simp add: twoq_init_def fifo_init_def)
next
  assume "N < 4"
  then show "(twoq_new False N :: failure + ('k, 'v) twoq) = Inl Assertion_failed"
    by (simp add: twoq_new_def fifo_new_def)
next
  assume "N < 4"
  then show "(twoq_new True N :: failure + ('k, 'v) twoq) = Inr (twoq_init N)"
    by (simp add: twoq_new_def fifo_new_def lru_new_def twoq_init_def)
next
  fix k :: 'k and v :: 'v
  assume "N < 4"
  then show "twoq_push (twoq_init N) (k, v) = Inl Undefined_behaviour"
    by (rule twoq_push_small)
next
  assume "4 \<le> N"
  then have "1 \<le> N div 4" "1 \<le> N div 2" "1 \<le> N - N div 4" by arith+
  then show "1 \<le> fifo_max_size (twoq_in (twoq_init N :: ('k, 'v) twoq))"
    by (simp add: twoq_init_def fifo_init_def)
next
  assume "4 \<le> N"
  then have "1 \<le> N div 4" "1 \<le> N div 2" "1 \<le> N - N div 4" by arith+
  then show "1 \<le> fifo_max_size (twoq_out (twoq_init N :: ('k, 'v) twoq))"
    by (simp add: twoq_init_def fifo_init_def)
next
  assume "4 \<le> N"
  then have "1 \<le> N div 4" "1 \<le> N div 2" "1 \<le> N - N div 4" by arith+
  then show "1 \<le> lru_max_size (twoq_main (twoq_init N :: ('k, 'v) twoq))"
    by (simp add: twoq_init_def lru_init_def)
next
  fix ndebug
  assume "4 \<le> N"
  then have "1 \<le> N div 4" "1 \<le> N div 2" "1 \<le> N - N div 4" by arith+
  then show "(twoq_new ndebug N :: failure + ('k, 'v) twoq) = Inr (twoq_init N)"
    by (simp add: twoq_new_def fifo_new_def lru_new_def twoq_init_def)
next
  fix ops :: "('k, 'v) twoq_op list"
  assume "4 \<le> N"
  with twoq_run_total [OF twoq_inv_init, of N ops]
  show "\<exists>q'. twoq_run (twoq_init N) ops = Inr q'" by blast
qed

theorem twoq_defined_iff_capacity_ge_4_witness:
  "(3::nat) < 4 \<and> (4::nat) \<le> 8 \<and>
   (twoq_new False 3 :: failure + (nat, nat) twoq) = Inl Assertion_failed \<and>
   twoq_push (twoq_init 3 :: (nat, nat) twoq) (1, 10) = Inl Undefined_behaviour \<and>
   (\<exists>q'. twoq_run (twoq_init 8 :: (nat, nat) twoq) [Push 1 10, Find 1, Push 2 20, Clear] = Inr q')"
proof -
  have small: "(3::nat) < 4" and large: "(4::nat) \<le> 8" by simp_all
  from small large
    twoq_defined_iff_capacity_ge_4 [where 'k = nat and 'v = nat and N = 3]
    twoq_defined_iff_capacity_ge_4 [where 'k = nat and 'v = nat and N = 8]
  show ?thesis by blast
qed

text \<open>
  C3 (as amended). In a 2Q cache of capacity \<open>N \<ge> 4\<close>, used as the header asks (\<open>find\<close>
  has missed before \<open>push\<close>):
  \<^item> for a key \<open>k\<close> in none of \<open>in\<close>, \<open>out\<close> and \<open>main\<close>, \<open>push (k, v)\<close> succeeds, \<open>k\<close> is
    then in \<open>in\<close>, and \<open>find k\<close> returns \<open>v\<close> and leaves the whole cache as it is (no
    promotion);
  \<^item> a \<open>push\<close> that goes to \<open>in\<close> and returns the evicted entry \<open>(k, w)\<close> took it from
    \<open>in\<close> and leaves \<open>k\<close> in \<open>out\<close>;
  \<^item> for \<open>k\<close> in \<open>out\<close> and not in \<open>main\<close>, \<open>push (k, v')\<close> succeeds, leaves \<open>in\<close> alone and
    puts \<open>(k, v')\<close> into \<open>main\<close>, where \<open>find k\<close> finds \<open>v'\<close>.
\<close>

theorem twoq_admission_protocol:
  assumes "twoq_inv N q" and "4 \<le> N"
  shows
    "(k \<notin> fifo_keys (twoq_out q) \<and> k \<notin> lru_keys (twoq_main q) \<and> k \<notin> fifo_keys (twoq_in q) \<longrightarrow>
        (\<exists>ev q'. twoq_push q (k, v) = Inr (ev, q') \<and> k \<in> fifo_keys (twoq_in q') \<and>
                 twoq_find q' k = (Some v, q'))) \<and>
     (\<forall>x w q'. fst x \<notin> fifo_keys (twoq_out q) \<and> twoq_push q x = Inr (Some (k, w), q') \<longrightarrow>
        (k, w) \<in> set (fifo_items (twoq_in q)) \<and> k \<in> fifo_keys (twoq_out q')) \<and>
     (k \<in> fifo_keys (twoq_out q) \<and> k \<notin> lru_keys (twoq_main q) \<longrightarrow>
        (\<exists>ev q'. twoq_push q (k, v') = Inr (ev, q') \<and> twoq_in q' = twoq_in q \<and>
                 (k, v') \<in> set (lru_items (twoq_main q')) \<and>
                 fst (lru_find (twoq_main q') k) = Some v' \<and>
                 twoq_find q' k = (Some v', q')))"
proof (intro conjI impI allI)
  assume fresh: "k \<notin> fifo_keys (twoq_out q) \<and> k \<notin> lru_keys (twoq_main q) \<and>
    k \<notin> fifo_keys (twoq_in q)"
  from twoq_push_total [OF assms, of "(k, v)"] obtain ev q' where
    push: "twoq_push q (k, v) = Inr (ev, q')" by blast
  from fresh have out: "fifo_find (twoq_out q) k = None" by (simp add: fifo_find_None_iff)
  from push out obtain ev1 i where
    i: "fifo_push (twoq_in q) (k, v) = Inr (ev1, i)" "twoq_in q' = i" "twoq_main q' = twoq_main q"
    by (auto simp: twoq_push_def split: sum.splits option.splits prod.splits)
  from fifo_push_new_key [OF i(1)] fresh
  have "k \<in> fifo_keys i" "fifo_find i k = Some v" by simp_all
  moreover from fresh i(3) have "lru_find (twoq_main q') k = (None, twoq_main q')"
    by (simp add: lru_find_miss)
  ultimately have "k \<in> fifo_keys (twoq_in q') \<and> twoq_find q' k = (Some v, q')"
    using i(2) by (simp add: twoq_find_def)
  with push show "\<exists>ev q'. twoq_push q (k, v) = Inr (ev, q') \<and> k \<in> fifo_keys (twoq_in q') \<and>
    twoq_find q' k = (Some v, q')" by blast
next
  fix x :: "'a \<times> 'b" and w q'
  assume a: "fst x \<notin> fifo_keys (twoq_out q) \<and> twoq_push q x = Inr (Some (k, w), q')"
  then have out: "fifo_find (twoq_out q) (fst x) = None" by (simp add: fifo_find_None_iff)
  with a obtain i ev2 out' where
    i: "fifo_push (twoq_in q) x = Inr (Some (k, w), i)"
    and o: "fifo_push (twoq_out q) (k, 0) = Inr (ev2, out')" "twoq_out q' = out'"
    by (auto simp: twoq_push_def split: sum.splits option.splits prod.splits)
  from fifo_push_evicted_mem [OF i] fifo_push_key_present [OF o(1)] o(2)
  show "(k, w) \<in> set (fifo_items (twoq_in q))" "k \<in> fifo_keys (twoq_out q')" by simp_all
next
  assume ghost: "k \<in> fifo_keys (twoq_out q) \<and> k \<notin> lru_keys (twoq_main q)"
  from twoq_push_total [OF assms, of "(k, v')"] obtain ev q' where
    push: "twoq_push q (k, v') = Inr (ev, q')" by blast
  from ghost have out: "fifo_find (twoq_out q) k \<noteq> None" by (simp add: fifo_find_None_iff)
  from push out obtain m where
    m: "lru_push (twoq_main q) (k, v') = Inr (ev, m)" "twoq_main q' = m" "twoq_in q' = twoq_in q"
    by (auto simp: twoq_push_def split: sum.splits prod.splits)
  from lru_push_new_key [OF m(1)] ghost
  have "(k, v') \<in> set (lru_items m)" "lru_find m k = (Some v', m)" by simp_all
  with m(2,3) have "twoq_in q' = twoq_in q \<and> (k, v') \<in> set (lru_items (twoq_main q')) \<and>
    fst (lru_find (twoq_main q') k) = Some v' \<and> twoq_find q' k = (Some v', q')"
    by (simp add: twoq_find_def)
  with push show "\<exists>ev q'. twoq_push q (k, v') = Inr (ev, q') \<and> twoq_in q' = twoq_in q \<and>
    (k, v') \<in> set (lru_items (twoq_main q')) \<and>
    fst (lru_find (twoq_main q') k) = Some v' \<and> twoq_find q' k = (Some v', q')" by blast
qed

lemma twoq_8_examples_inv:
  "twoq_inv 8 (twoq_init 8)" "twoq_inv 8 twoq_8_full_in" "twoq_inv 8 twoq_8_ghost"
  by (simp_all add: twoq_inv_def twoq_init_def fifo_init_def lru_init_def fifo_inv_def
      lru_inv_def twoq_8_full_in_def twoq_8_ghost_def)

lemma twoq_8_full_in_push:
  "twoq_push twoq_8_full_in (3, 30) = Inr (Some (1, 10), twoq_8_ghost)"
  by (simp add: twoq_push_def twoq_8_full_in_def twoq_8_ghost_def fifo_find_def fifo_push_def
      fifo_item_push_def)

theorem twoq_admission_protocol_witness:
  "twoq_inv 8 (twoq_init 8 :: (nat, nat) twoq) \<and> twoq_inv 8 twoq_8_full_in \<and>
   twoq_inv 8 twoq_8_ghost \<and> (4::nat) \<le> 8 \<and>
   1 \<notin> fifo_keys (twoq_out (twoq_init 8 :: (nat, nat) twoq)) \<and>
   1 \<notin> lru_keys (twoq_main (twoq_init 8 :: (nat, nat) twoq)) \<and>
   1 \<notin> fifo_keys (twoq_in (twoq_init 8 :: (nat, nat) twoq)) \<and>
   (\<exists>ev q'. twoq_push (twoq_init 8 :: (nat, nat) twoq) (1, 10) = Inr (ev, q') \<and>
      1 \<in> fifo_keys (twoq_in q') \<and> twoq_find q' 1 = (Some 10, q')) \<and>
   3 \<notin> fifo_keys (twoq_out twoq_8_full_in) \<and>
   twoq_push twoq_8_full_in (3, 30) = Inr (Some (1, 10), twoq_8_ghost) \<and>
   (1, 10) \<in> set (fifo_items (twoq_in twoq_8_full_in)) \<and>
   1 \<in> fifo_keys (twoq_out twoq_8_ghost) \<and>
   1 \<notin> lru_keys (twoq_main twoq_8_ghost) \<and>
   (\<exists>ev q'. twoq_push twoq_8_ghost (1, 11) = Inr (ev, q') \<and>
      twoq_in q' = twoq_in twoq_8_ghost \<and> (1, 11) \<in> set (lru_items (twoq_main q')) \<and>
      fst (lru_find (twoq_main q') 1) = Some 11 \<and> twoq_find q' 1 = (Some 11, q'))"
proof -
  have n: "(4::nat) \<le> 8" by simp
  have fresh: "1 \<notin> fifo_keys (twoq_out (twoq_init 8 :: (nat, nat) twoq)) \<and>
      1 \<notin> lru_keys (twoq_main (twoq_init 8 :: (nat, nat) twoq)) \<and>
      1 \<notin> fifo_keys (twoq_in (twoq_init 8 :: (nat, nat) twoq))"
    by (simp add: twoq_init_def fifo_init_def lru_init_def fifo_keys_def lru_keys_def)
  have evict: "fst (3::nat, 30::nat) \<notin> fifo_keys (twoq_out twoq_8_full_in) \<and>
      twoq_push twoq_8_full_in (3, 30) = Inr (Some (1, 10), twoq_8_ghost)"
    by (simp add: twoq_8_full_in_push) (simp add: twoq_8_full_in_def fifo_keys_def)
  have ghost: "1 \<in> fifo_keys (twoq_out twoq_8_ghost) \<and> 1 \<notin> lru_keys (twoq_main twoq_8_ghost)"
    by (simp add: twoq_8_ghost_def fifo_keys_def lru_keys_def)
  note a = twoq_admission_protocol [OF twoq_8_examples_inv(1) n, of 1 10 0]
  note b = twoq_admission_protocol [OF twoq_8_examples_inv(2) n, of 1 0 0]
  note c = twoq_admission_protocol [OF twoq_8_examples_inv(3) n, of 1 0 11]
  from a fresh have 1: "\<exists>ev q'. twoq_push (twoq_init 8 :: (nat, nat) twoq) (1, 10) = Inr (ev, q') \<and>
      1 \<in> fifo_keys (twoq_in q') \<and> twoq_find q' 1 = (Some 10, q')" by blast
  from b evict have 2: "(1, 10) \<in> set (fifo_items (twoq_in twoq_8_full_in)) \<and>
      1 \<in> fifo_keys (twoq_out twoq_8_ghost)" by blast
  from c ghost have 3: "\<exists>ev q'. twoq_push twoq_8_ghost (1, 11) = Inr (ev, q') \<and>
      twoq_in q' = twoq_in twoq_8_ghost \<and> (1, 11) \<in> set (lru_items (twoq_main q')) \<and>
      fst (lru_find (twoq_main q') 1) = Some 11 \<and> twoq_find q' 1 = (Some 11, q')" by blast
  from 1 2 3 fresh evict ghost n twoq_8_examples_inv show ?thesis by simp
qed

theorem twoq_push_present_key_counterexample:
  "twoq_push (twoq_init 8) (1, 10) = Inr (None, twoq_8_after_push) \<and>
   1 \<notin> fifo_keys (twoq_out twoq_8_after_push) \<and>
   1 \<notin> lru_keys (twoq_main twoq_8_after_push) \<and>
   twoq_push twoq_8_after_push (1, 20) = Inr (None, twoq_8_pushed_twice) \<and>
   twoq_find twoq_8_pushed_twice 1 = (Some 10, twoq_8_pushed_twice) \<and>
   fst (twoq_find twoq_8_pushed_twice 1) \<noteq> Some 20"
  by (simp add: twoq_push_def twoq_find_def twoq_init_def fifo_init_def lru_init_def
      twoq_8_after_push_def twoq_8_pushed_twice_def fifo_find_def fifo_push_def
      fifo_item_push_def lru_find_def fifo_keys_def lru_keys_def)

subsection \<open>The entries of the caches as multisets\<close>

lemma fifo_push_None:
  "fifo_push q x = Inr (None, q') \<Longrightarrow> fifo_items q' = fifo_items q @ [x]"
  by (auto simp: fifo_push_def fifo_item_push_def Let_def split: if_splits)

lemma fifo_push_Some:
  assumes "fifo_push q x = Inr (Some e, q')"
  shows "mset (fifo_items q') + {#e#} = mset (fifo_items q) + {#x#}"
proof -
  define n where "n = (if fifo_next_item q = length (fifo_items q) then 0 else fifo_next_item q)"
  from assms have n: "n < length (fifo_items q)" and e: "e = fifo_items q ! n"
    and q': "fifo_items q' = (fifo_items q)[n := x]"
    by (auto simp: fifo_push_def fifo_item_push_def Let_def n_def split: if_splits)
  from n have "fifo_items q ! n \<in># mset (fifo_items q)" by simp
  with n e q' show ?thesis by (simp add: mset_update)
qed

lemma lru_push_None:
  "lru_push q x = Inr (None, q') \<Longrightarrow> lru_items q' = lru_items q @ [x]"
  by (auto simp: lru_push_def lru_item_push_def split: if_splits list.splits)

lemma lru_push_Some:
  "lru_push q x = Inr (Some e, q') \<Longrightarrow> mset (lru_items q') + {#e#} = mset (lru_items q) + {#x#}"
  by (auto simp: lru_push_def lru_item_push_def split: if_splits list.splits)

lemma item_move_top_mset:
  assumes "i < length xs"
  shows "mset (item_move_top xs i) = mset xs"
proof -
  have "mset xs = mset (take i xs @ xs ! i # drop (Suc i) xs)"
    by (rule arg_cong [where f = mset, OF id_take_nth_drop [OF assms]])
  then show ?thesis by (simp add: item_move_top_def)
qed

lemma lru_find_mset: "mset (lru_items (snd (lru_find q k))) = mset (lru_items q)"
proof (cases "item_find (lru_items q) k = length (lru_items q)")
  case True
  then show ?thesis by (simp add: lru_find_def)
next
  case False
  with item_find_le [of "lru_items q" k] have "item_find (lru_items q) k < length (lru_items q)"
    by simp
  with False show ?thesis by (simp add: lru_find_def Let_def item_move_top_mset)
qed

lemma lru_find_Some:
  assumes "fst (lru_find q k) = Some v"
  shows "(k, v) \<in> set (lru_items q)"
proof -
  let ?i = "item_find (lru_items q) k"
  from assms have ne: "?i \<noteq> length (lru_items q)" and v: "v = snd (lru_items q ! ?i)"
    by (auto simp: lru_find_def Let_def split: if_splits)
  from ne item_find_le [of "lru_items q" k] have lt: "?i < length (lru_items q)" by simp
  from ne have "k \<in> fst ` set (lru_items q)" by (simp add: item_find_end_iff)
  then have "fst (lru_items q ! ?i) = k" by (rule item_find_hit)
  with v have "lru_items q ! ?i = (k, v)" by (simp add: prod_eq_iff)
  with lt show ?thesis by (metis nth_mem)
qed

lemma fifo_find_Some:
  assumes "fifo_find q k = Some v"
  shows "(k, v) \<in> set (fifo_items q)"
proof -
  let ?i = "item_find (fifo_items q) k"
  from assms have ne: "?i \<noteq> length (fifo_items q)" and v: "v = snd (fifo_items q ! ?i)"
    by (auto simp: fifo_find_def Let_def split: if_splits)
  from ne item_find_le [of "fifo_items q" k] have lt: "?i < length (fifo_items q)" by simp
  from ne have "k \<in> fst ` set (fifo_items q)" by (simp add: item_find_end_iff)
  then have "fst (fifo_items q ! ?i) = k" by (rule item_find_hit)
  with v have "fifo_items q ! ?i = (k, v)" by (simp add: prod_eq_iff)
  with lt show ?thesis by (metis nth_mem)
qed

lemma twoq_find_parts:
  "twoq_in (snd (twoq_find q k)) = twoq_in q"
  "twoq_out (snd (twoq_find q k)) = twoq_out q"
  "twoq_main (snd (twoq_find q k)) = snd (lru_find (twoq_main q) k)"
  by (simp_all add: twoq_find_def split: prod.splits option.splits)

lemma twoq_find_Some:
  assumes "fst (twoq_find q k) = Some v"
  shows "(k, v) \<in> set (fifo_items (twoq_in q)) \<union> set (lru_items (twoq_main q))"
proof (cases "fst (lru_find (twoq_main q) k)")
  case None
  with assms have "fifo_find (twoq_in q) k = Some v"
    by (simp add: twoq_find_def split: prod.splits option.splits)
  then show ?thesis by (simp add: fifo_find_Some)
next
  case (Some w)
  with assms have "w = v" by (simp add: twoq_find_def split: prod.splits option.splits)
  with Some show ?thesis by (simp add: lru_find_Some)
qed

lemma twoq_find_None:
  assumes "fst (twoq_find q k) = None"
  shows "snd (twoq_find q k) = q"
proof -
  from assms have "fst (lru_find (twoq_main q) k) = None"
    by (simp add: twoq_find_def split: prod.splits option.splits)
  then have "lru_find (twoq_main q) k = (None, twoq_main q)"
    by (simp add: lru_find_def Let_def split: if_splits)
  then show ?thesis by (simp add: twoq_find_def)
qed

lemma twoq_push_None:
  assumes "twoq_push q x = Inr (None, q')"
  shows "mset (fifo_items (twoq_in q')) + mset (lru_items (twoq_main q')) =
         mset (fifo_items (twoq_in q)) + mset (lru_items (twoq_main q)) + {#x#}"
proof (cases "fifo_find (twoq_out q) (fst x) = None")
  case True
  with assms obtain i where "fifo_push (twoq_in q) x = Inr (None, i)" "twoq_in q' = i"
    "twoq_main q' = twoq_main q"
    by (auto simp: twoq_push_def split: sum.splits option.splits prod.splits)
  then show ?thesis by (simp add: fifo_push_None)
next
  case False
  with assms obtain m where "lru_push (twoq_main q) x = Inr (None, m)" "twoq_main q' = m"
    "twoq_in q' = twoq_in q"
    by (auto simp: twoq_push_def split: sum.splits prod.splits)
  then show ?thesis by (simp add: lru_push_None)
qed

lemma twoq_push_Some:
  assumes "twoq_push q x = Inr (Some e, q')"
  shows "mset (fifo_items (twoq_in q')) + mset (lru_items (twoq_main q')) + {#e#} =
         mset (fifo_items (twoq_in q)) + mset (lru_items (twoq_main q)) + {#x#}"
proof (cases "fifo_find (twoq_out q) (fst x) = None")
  case True
  with assms obtain i where "fifo_push (twoq_in q) x = Inr (Some e, i)" "twoq_in q' = i"
    "twoq_main q' = twoq_main q"
    by (auto simp: twoq_push_def split: sum.splits option.splits prod.splits)
  with fifo_push_Some [of "twoq_in q" x e i] show ?thesis by simp
next
  case False
  with assms obtain m where "lru_push (twoq_main q) x = Inr (Some e, m)" "twoq_main q' = m"
    "twoq_in q' = twoq_in q"
    by (auto simp: twoq_push_def split: sum.splits prod.splits)
  with lru_push_Some [of "twoq_main q" x e m] show ?thesis by simp
qed

subsection \<open>The paths through \<open>view\<close>\<close>

lemma view_Inr_cases:
  assumes "view ndebug d p index cnt pos = (Inr ptr, p')"
  obtains
    (hit) slot q where
      "view_args_ok p index cnt pos"
      "twoq_find (cache_queue p) index = (Some slot, q)"
      "ptr = slot + unat pos" "p' = p\<lparr>cache_queue := q\<rparr>"
  | (miss) bytes freed q' where
      "view_args_ok p index cnt pos"
      "fst (twoq_find (cache_queue p) index) = None"
      "cache_pool p \<noteq> []"
      "file_read d (file_iface p) (pages_page_size p) (pages_page_size p * unat index) = Inr bytes"
      "twoq_push (cache_queue p) (index, last (cache_pool p)) = Inr (freed, q')"
      "ptr = last (cache_pool p) + unat pos"
      "p' = p\<lparr>cache_data := store (cache_data p) (last (cache_pool p)) bytes,
               cache_queue := q',
               cache_pool := butlast (cache_pool p) @ (case freed of None \<Rightarrow> [] | Some f \<Rightarrow> [snd f])\<rparr>"
proof -
  from assms have ok: "view_args_ok p index cnt pos"
    by (auto simp: view_def view_args_ok_def split: if_splits)
  obtain r q where f: "twoq_find (cache_queue p) index = (r, q)" by (cases "twoq_find (cache_queue p) index")
  show thesis
  proof (cases r)
    case (Some slot)
    with assms ok f have "ptr = slot + unat pos" "p' = p\<lparr>cache_queue := q\<rparr>"
      by (auto simp: view_def view_args_ok_def split: if_splits)
    with ok f Some show thesis by (intro hit) auto
  next
    case None
    with f have q: "q = cache_queue p" using twoq_find_None [of "cache_queue p" index] by simp
    have p0: "p\<lparr>cache_queue := cache_queue p\<rparr> = p" by simp
    from assms ok f None q have pool: "cache_pool p \<noteq> []"
      by (auto simp: view_def view_args_ok_def p0 split: if_splits)
    let ?slot = "last (cache_pool p)"
    let ?rd = "file_read d (file_iface p) (pages_page_size p) (pages_page_size p * unat index)"
    from assms ok f None q pool obtain bytes where rd: "?rd = Inr bytes"
      by (cases ?rd)
         (auto simp: view_def view_args_ok_def p0 Let_def pages_page_size_def split: if_splits)
    let ?push = "twoq_push (cache_queue p) (index, ?slot)"
    from assms ok f None q pool rd obtain freed q' where push: "?push = Inr (freed, q')"
      by (cases ?push)
         (auto simp: view_def view_args_ok_def p0 Let_def pages_page_size_def split: if_splits)
    from assms ok f None q pool rd push
    have "ptr = ?slot + unat pos \<and>
          p' = p\<lparr>cache_data := store (cache_data p) ?slot bytes, cache_queue := q',
                 cache_pool := butlast (cache_pool p) @ (case freed of None \<Rightarrow> [] | Some f \<Rightarrow> [snd f])\<rparr>"
      by (cases freed)
         (auto simp: view_def view_args_ok_def p0 Let_def pages_page_size_def split: if_splits)
    with ok f None pool rd push show thesis by (intro miss) auto
  qed
qed

subsection \<open>What a successful \<open>open\<close> leaves\<close>

lemma page_size_allowed_pos: "page_size_allowed ps \<Longrightarrow> 0 < unat ps"
  by (auto simp: page_size_allowed_def)

lemma db_hdr_of_bytes_store:
  "length bs = 24 \<Longrightarrow> db_hdr_of_bytes (store mem 0 bs) = db_hdr_of_bytes bs"
  by (simp add: db_hdr_of_bytes_def store_def)

lemma file_read_full:
  "read_error d = 0 \<Longrightarrow> pos + cnt \<le> length (disk_bytes d) \<Longrightarrow>
   file_read d f cnt pos = Inr (take cnt (drop pos (disk_bytes d)))"
  by (simp add: file_read_def)

lemma pages_open_success:
  assumes "pages_open ndebug d p = Inr (e, p')" "mycode e = errors_none"
  obtains h where
    "open_error d = 0"
    "hdr_sig h = signature"
    "hdr_version h = 0x000E0208 \<or> hdr_version h = 0x00080308"
    "page_size_allowed (hdr_page_size h)"
    "length (disk_bytes d) = unat (hdr_length h) * unat (hdr_page_size h)"
    "hdr_length h \<noteq> 0"
    "p' = (cache_init (p\<lparr>db_hdr := h\<rparr>) (unat (hdr_page_size h)))
            \<lparr>file_iface := \<lparr>file_handle = True, file_size = length (disk_bytes d)\<rparr>\<rparr>"
proof -
  let ?tmp = "\<lparr>file_handle = True, file_size = length (disk_bytes d)\<rparr>"
  from assms have oe: "open_error d = 0"
    by (auto simp: pages_open_def file_open_def error_file_def split: if_splits)
  then have fo: "file_open d file_init = (0, ?tmp)" by (simp add: file_open_def)
  from assms fo obtain hb where rd: "file_read d ?tmp 24 0 = Inr hb"
    by (cases "file_read d ?tmp 24 0")
       (auto simp: pages_open_def error_file_def split: if_splits)
  define h0 where "h0 = db_hdr_of_bytes (store (db_hdr_bytes (db_hdr p)) 0 hb)"
  define h where "h = (if hdr_version h0 = 0x000E0208 then h0\<lparr>hdr_page_size := 4096\<rparr> else h0)"
  have alw: "page_size_allowed 4096" by (simp add: page_size_allowed_def)
  from assms fo rd have sig: "hdr_sig h0 = signature"
    by (auto simp: pages_open_def h0_def error_code_def Let_def split: if_splits)
  from assms fo rd sig have ver: "hdr_version h0 = 0x000E0208 \<or> hdr_version h0 = 0x00080308"
    by (auto simp: pages_open_def h0_def error_code_def Let_def split: if_splits)
  from assms fo rd sig ver have ps: "page_size_allowed (hdr_page_size h)"
    by (auto simp: pages_open_def h0_def h_def alw error_code_def Let_def split: if_splits)
  from assms fo rd sig ver ps
  have sz: "length (disk_bytes d) mod unat (hdr_page_size h) = 0"
           "length (disk_bytes d) div unat (hdr_page_size h) = unat (hdr_length h)"
           "hdr_length h \<noteq> 0"
    and p': "p' = (cache_init (p\<lparr>db_hdr := h\<rparr>) (unat (hdr_page_size h)))\<lparr>file_iface := ?tmp\<rparr>"
    by (auto simp: pages_open_def h0_def h_def alw error_code_def Let_def split: if_splits)
  from sz(1,2) have "length (disk_bytes d) = unat (hdr_length h) * unat (hdr_page_size h)"
    by (metis mod_0_imp_dvd dvd_div_mult_self)
  moreover from sig ver have "hdr_sig h = signature"
    "hdr_version h = 0x000E0208 \<or> hdr_version h = 0x00080308"
    by (auto simp: h_def)
  ultimately show thesis using oe ps sz(3) p' by (intro that [of h]) auto
qed

subsection \<open>The example database\<close>

lemma mem_get_examples:
  "(mem_get [0x08, 0x03, 0x08, 0x00] :: u32) = 0x00080308"
  "(mem_get [2, 0, 0, 0] :: u32) = 2"
  "(mem_get [0, 0, 0, 0] :: u32) = 0"
  "(mem_get [0x00, 0x10, 0, 0] :: u32) = 4096"
  by simp_all

lemma disk_2_pages_length: "length (disk_bytes disk_2_pages) = 8192"
  by (simp add: disk_2_pages_def signature_def)

lemma disk_2_pages_read_error: "read_error disk_2_pages = 0"
  by (simp add: disk_2_pages_def)

lemma disk_2_pages_header:
  "db_hdr_of_bytes (take 24 (disk_bytes disk_2_pages)) = hdr_838"
  by (simp add: disk_2_pages_def signature_def db_hdr_of_bytes_def hdr_838_def)

lemma upt_0_5: "[0..<5] = [0, 1, 2, 3, 4::nat]"
  by (simp add: upt_rec)

lemma pages_new_4: "pages_new ndebug 4 = Inr (pages_init 4)"
  by (simp add: pages_new_def twoq_new_def fifo_new_def lru_new_def pages_init_def twoq_init_def)

lemma pages_open_example:
  "pages_open ndebug disk_2_pages (pages_init 4) = Inr (error_none, pages_opened)"
  apply (simp add: pages_open_def is_valid_def pages_init_def file_init_def file_is_valid_def
      file_open_def file_read_full db_hdr_of_bytes_store disk_2_pages_length disk_2_pages_header
      disk_2_pages_read_error)
  apply (simp add: disk_2_pages_def hdr_838_def page_size_allowed_def Let_def cache_init_def
      pages_opened_def twoq_init_def twoq_clear_def fifo_clear_def lru_clear_def fifo_init_def lru_init_def
      upt_0_5)
  done

subsection \<open>The slot count of \<open>pages\<close>\<close>

lemma fifo_push_inv:
  "fifo_inv q \<Longrightarrow> fifo_push q x = Inr (ev, q') \<Longrightarrow>
   fifo_inv q' \<and> fifo_max_size q' = fifo_max_size q"
  by (auto simp: fifo_push_def fifo_item_push_def fifo_inv_def Let_def split: if_splits)

lemma lru_push_inv:
  "lru_inv q \<Longrightarrow> lru_push q x = Inr (ev, q') \<Longrightarrow>
   lru_inv q' \<and> lru_max_size q' = lru_max_size q"
  by (auto simp: lru_push_def lru_item_push_def lru_inv_def split: if_splits list.splits)

lemma twoq_push_inv:
  assumes "twoq_inv N q" "twoq_push q x = Inr (ev, q')"
  shows "twoq_inv N q'"
proof (cases "fifo_find (twoq_out q) (fst x) = None")
  case False
  with assms(2) obtain m where m: "lru_push (twoq_main q) x = Inr (ev, m)"
    and q': "q' = q\<lparr>twoq_main := m\<rparr>"
    by (auto simp: twoq_push_def split: sum.splits prod.splits)
  from assms(1) have "lru_inv (twoq_main q)" by (simp add: twoq_inv_def)
  from lru_push_inv [OF this m] assms(1) q' show ?thesis by (simp add: twoq_inv_def)
next
  case True
  from assms(1) have inv: "fifo_inv (twoq_in q)" "fifo_inv (twoq_out q)"
    by (simp_all add: twoq_inv_def)
  from True assms(2) obtain e i where i: "fifo_push (twoq_in q) x = Inr (e, i)"
    by (auto simp: twoq_push_def split: sum.splits prod.splits)
  note i_inv = fifo_push_inv [OF inv(1) i]
  show ?thesis
  proof (cases e)
    case None
    with True assms(2) i have "q' = q\<lparr>twoq_in := i\<rparr>" by (simp add: twoq_push_def)
    with i_inv assms(1) show ?thesis by (simp add: twoq_inv_def)
  next
    case (Some ev1)
    with True assms(2) i obtain e2 out where out: "fifo_push (twoq_out q) (fst ev1, 0) = Inr (e2, out)"
      and q': "q' = q\<lparr>twoq_in := i, twoq_out := out\<rparr>"
      by (auto simp: twoq_push_def split: sum.splits prod.splits)
    from fifo_push_inv [OF inv(2) out] i_inv assms(1) q' show ?thesis
      by (simp add: twoq_inv_def)
  qed
qed

lemma twoq_push_length:
  assumes "twoq_push q x = Inr (ev, q')"
  shows "length (fifo_items (twoq_in q')) + length (lru_items (twoq_main q')) +
           (case ev of None \<Rightarrow> 0 | Some e \<Rightarrow> 1) =
         length (fifo_items (twoq_in q)) + length (lru_items (twoq_main q)) + 1"
proof (cases ev)
  case None
  with assms have "size (mset (fifo_items (twoq_in q')) + mset (lru_items (twoq_main q'))) =
      size (mset (fifo_items (twoq_in q)) + mset (lru_items (twoq_main q)) + {#x#})"
    by (simp only: twoq_push_None)
  with None show ?thesis by simp
next
  case (Some e)
  with assms have "size (mset (fifo_items (twoq_in q')) + mset (lru_items (twoq_main q')) + {#e#}) =
      size (mset (fifo_items (twoq_in q)) + mset (lru_items (twoq_main q)) + {#x#})"
    by (simp only: twoq_push_Some)
  with Some show ?thesis by simp
qed

lemma lru_find_length: "length (lru_items (snd (lru_find q k))) = length (lru_items q)"
  using arg_cong [where f = size, OF lru_find_mset [of q k]] by simp

lemma view_pool_inv:
  assumes "pool_inv p" "view ndebug d p index cnt pos = (Inr ptr, p')"
  shows "pool_inv p' \<and> cache_size p' = cache_size p"
  using assms(2)
proof (cases rule: view_Inr_cases)
  case (hit slot q)
  then have q: "q = snd (twoq_find (cache_queue p) index)" by simp
  from assms(1) have "twoq_inv (cache_size p) q" unfolding q pool_inv_def
    by (simp add: twoq_find_inv)
  with assms(1) hit(4) show ?thesis
    by (simp add: pool_inv_def queue_slots_def q twoq_find_parts lru_find_length)
next
  case (miss bytes freed q')
  from assms(1) have "twoq_inv (cache_size p) (cache_queue p)" by (simp add: pool_inv_def)
  from twoq_push_inv [OF this miss(5)] have inv: "twoq_inv (cache_size p) q'" .
  from miss(3) have "length (butlast (cache_pool p)) + 1 = length (cache_pool p)"
    by (cases "cache_pool p" rule: rev_cases) simp_all
  with twoq_push_length [OF miss(5)] assms(1) inv miss(7) show ?thesis
    by (cases freed) (simp_all add: pool_inv_def queue_slots_def)
qed

lemma view_Thrown_unchanged:
  assumes "view ndebug d p index cnt pos = (Inl (Thrown msg), p')"
  shows "cache_pool p' = cache_pool p \<and> cache_queue p' = cache_queue p"
proof (cases "fst (twoq_find (cache_queue p) index)")
  case (Some slot)
  with assms show ?thesis
    by (auto simp: view_def split: if_splits prod.splits)
next
  case None
  then have "twoq_find (cache_queue p) index = (None, cache_queue p)"
    using twoq_find_None [of "cache_queue p" index] by (simp add: prod_eq_iff)
  with assms show ?thesis
    by (auto simp: view_def Let_def split: if_splits sum.splits prod.splits option.splits)
qed

lemma view_read_fails:
  assumes "ndebug \<or> is_valid p" "view_args_ok p index cnt pos"
    "fst (twoq_find (cache_queue p) index) = None" "cache_pool p \<noteq> []"
    "file_read d (file_iface p) (pages_page_size p) (pages_page_size p * unat index) = Inl fe"
  shows "view ndebug d p index cnt pos =
     (Inl (Thrown (''Error while reading page from file: '' @ file_error_to_string fe)), p)"
proof -
  from assms(3) have "twoq_find (cache_queue p) index = (None, cache_queue p)"
    using twoq_find_None [of "cache_queue p" index] by (simp add: prod_eq_iff)
  moreover have "p\<lparr>cache_queue := cache_queue p\<rparr> = p" by simp
  ultimately show ?thesis using assms(1,2,4,5)
    by (auto simp: view_def view_args_ok_def Let_def pages_page_size_def)
qed

lemma pages_new_Inr: "pages_new ndebug N = Inr p0 \<Longrightarrow> p0 = pages_init N"
  by (auto simp: pages_new_def twoq_new_def fifo_new_def lru_new_def pages_init_def
      twoq_init_def split: sum.splits if_splits)

lemma pages_open_pool_inv:
  assumes "pages_open ndebug d (pages_init N) = Inr (e, p)" "mycode e = errors_none"
  shows "pool_inv p \<and> cache_size p = N \<and> length (cache_pool p) = N + 1 \<and> queue_slots p = 0"
  using assms
proof (cases rule: pages_open_success)
  case (1 h)
  from page_size_allowed_pos [OF 1(4)] have "unat (hdr_page_size h) * (N + 1) \<noteq> 0" by simp
  moreover have "twoq_inv N (twoq_clear (twoq_init N :: (u32, nat) twoq))"
    by (rule twoq_clear_inv [OF twoq_inv_init])
  ultimately show ?thesis unfolding 1(7)
    by (simp add: pool_inv_def queue_slots_def cache_init_def pages_init_def)
       (simp add: twoq_clear_def fifo_clear_def lru_clear_def)
qed

lemma pool_inv_pool_nonempty:
  assumes "pool_inv p"
  shows "cache_pool p \<noteq> []"
proof -
  from assms have "length (fifo_items (twoq_in (cache_queue p))) \<le> cache_size p div 4"
    "length (lru_items (twoq_main (cache_queue p))) \<le> cache_size p - cache_size p div 4"
    by (auto simp: pool_inv_def twoq_inv_def fifo_inv_def lru_inv_def)
  then have "queue_slots p \<le> cache_size p" by (simp add: queue_slots_def)
  show ?thesis
  proof
    assume "cache_pool p = []"
    with assms \<open>queue_slots p \<le> cache_size p\<close> show False by (simp add: pool_inv_def)
  qed
qed

lemma disk_2_pages_page_1:
  "take 4096 (drop 4096 (disk_bytes disk_2_pages)) = replicate 4096 7"
  by (simp add: disk_2_pages_def signature_def)

lemma view_example:
  "view ndebug disk_2_pages pages_opened 1 16 0 = (Inr 16384, pages_viewed)"
  apply (simp add: view_def is_valid_def file_is_valid_def pages_opened_def hdr_838_def
      twoq_find_def lru_find_def fifo_find_def file_read_def disk_2_pages_length
      disk_2_pages_page_1 word_le_nat_alt word_less_nat_alt)
  apply (simp add: disk_2_pages_def twoq_push_def fifo_find_def fifo_push_def fifo_item_push_def
      store_def pages_viewed_def hdr_838_def)
  done

lemma view_example_fails:
  "view ndebug disk_failing pages_opened 1 16 0 =
     (Inl (Thrown ''Error while reading page from file: Unknown system error.''), pages_opened)"
  by (simp add: view_def is_valid_def file_is_valid_def pages_opened_def hdr_838_def
      twoq_find_def lru_find_def fifo_find_def file_read_def disk_failing_def
      file_error_to_string_def word_le_nat_alt word_less_nat_alt)

lemma pool_inv_pages_opened: "pool_inv pages_opened"
  by (simp add: pool_inv_def pages_opened_def queue_slots_def twoq_inv_def fifo_inv_def lru_inv_def)

text \<open>
  C2. A \<open>pages\<close> object that \<open>open\<close> has just made of a new \<open>pages (N)\<close> satisfies \<open>pool_inv\<close>.
  From any state that satisfies it: after a \<open>view\<close> that returns, the free pool and the
  entries of \<open>in\<close> and \<open>main\<close> together count \<open>N + 1\<close> slots, and \<open>pool_inv\<close> holds again;
  a \<open>view\<close> whose file read fails throws the read error and returns the object as it
  was; and whatever exception \<open>view\<close> throws, the free pool and the queue are those of
  before the call.
\<close>

theorem view_slot_accounting:
  "(pages_open ndebug d0 (pages_init N) = Inr (e, p0) \<and> mycode e = errors_none \<longrightarrow>
      pool_inv p0 \<and> cache_size p0 = N) \<and>
   (pool_inv p \<longrightarrow>
      (\<forall>ptr p'. view ndebug d p index cnt pos = (Inr ptr, p') \<longrightarrow>
         length (cache_pool p') + queue_slots p' = cache_size p + 1 \<and>
         cache_size p' = cache_size p \<and> pool_inv p') \<and>
      (\<forall>fe. (ndebug \<or> is_valid p) \<and> view_args_ok p index cnt pos \<and>
            fst (twoq_find (cache_queue p) index) = None \<and>
            file_read d (file_iface p) (pages_page_size p) (pages_page_size p * unat index) = Inl fe \<longrightarrow>
         view ndebug d p index cnt pos =
           (Inl (Thrown (''Error while reading page from file: '' @ file_error_to_string fe)), p)) \<and>
      (\<forall>msg p'. view ndebug d p index cnt pos = (Inl (Thrown msg), p') \<longrightarrow>
         cache_pool p' = cache_pool p \<and> cache_queue p' = cache_queue p))"
proof (intro conjI impI allI)
  assume "pages_open ndebug d0 (pages_init N) = Inr (e, p0) \<and> mycode e = errors_none"
  then have "pool_inv p0 \<and> cache_size p0 = N" using pages_open_pool_inv by blast
  then show "pool_inv p0" "cache_size p0 = N" by simp_all
next
  fix ptr p'
  assume inv: "pool_inv p" and v: "view ndebug d p index cnt pos = (Inr ptr, p')"
  from view_pool_inv [OF inv v] have *: "pool_inv p'" "cache_size p' = cache_size p" by simp_all
  then show "length (cache_pool p') + queue_slots p' = cache_size p + 1"
    "cache_size p' = cache_size p" "pool_inv p'"
    by (simp_all add: pool_inv_def)
next
  fix fe
  assume inv: "pool_inv p"
    and "(ndebug \<or> is_valid p) \<and> view_args_ok p index cnt pos \<and>
      fst (twoq_find (cache_queue p) index) = None \<and>
      file_read d (file_iface p) (pages_page_size p) (pages_page_size p * unat index) = Inl fe"
  with pool_inv_pool_nonempty [OF inv]
  show "view ndebug d p index cnt pos =
      (Inl (Thrown (''Error while reading page from file: '' @ file_error_to_string fe)), p)"
    by (intro view_read_fails) simp_all
next
  fix msg p'
  assume "view ndebug d p index cnt pos = (Inl (Thrown msg), p')"
  from view_Thrown_unchanged [OF this]
  show "cache_pool p' = cache_pool p" "cache_queue p' = cache_queue p" by simp_all
qed

theorem view_slot_accounting_witness:
  "pages_open True disk_2_pages (pages_init 4) = Inr (error_none, pages_opened) \<and>
   mycode error_none = errors_none \<and> pool_inv pages_opened \<and> cache_size pages_opened = 4 \<and>
   view True disk_2_pages pages_opened 1 16 0 = (Inr 16384, pages_viewed) \<and>
   length (cache_pool pages_viewed) + queue_slots pages_viewed = 4 + 1 \<and>
   pool_inv pages_viewed \<and>
   view_args_ok pages_opened 1 16 0 \<and>
   fst (twoq_find (cache_queue pages_opened) 1) = None \<and>
   file_read disk_failing (file_iface pages_opened) (pages_page_size pages_opened)
     (pages_page_size pages_opened * unat (1 :: u32)) = Inl 23 \<and>
   view True disk_failing pages_opened 1 16 0 =
     (Inl (Thrown (''Error while reading page from file: '' @ file_error_to_string 23)),
      pages_opened)"
proof -
  have opened: "pages_open True disk_2_pages (pages_init 4) = Inr (error_none, pages_opened) \<and>
      mycode error_none = errors_none"
    by (simp add: pages_open_example error_none_def)
  have args: "view_args_ok pages_opened 1 16 0"
    by (simp add: view_args_ok_def pages_opened_def hdr_838_def word_le_nat_alt word_less_nat_alt)
  have miss: "fst (twoq_find (cache_queue pages_opened) 1) = None"
    by (simp add: pages_opened_def twoq_find_def lru_find_def fifo_find_def)
  have fails: "file_read disk_failing (file_iface pages_opened) (pages_page_size pages_opened)
      (pages_page_size pages_opened * unat (1 :: u32)) = Inl 23"
    by (simp add: file_read_def disk_failing_def)
  note t1 = view_slot_accounting [of True disk_2_pages 4 error_none pages_opened
      pages_opened disk_2_pages 1 16 0]
  note t2 = view_slot_accounting [of True disk_2_pages 4 error_none pages_opened
      pages_opened disk_failing 1 16 0]
  from t1 opened have inv: "pool_inv pages_opened" "cache_size pages_opened = 4" by blast+
  from t1 inv(1) view_example [of True]
  have ok: "length (cache_pool pages_viewed) + queue_slots pages_viewed = cache_size pages_opened + 1 \<and>
      pool_inv pages_viewed" by blast
  from t2 inv(1) args miss fails
  have "view True disk_failing pages_opened 1 16 0 =
     (Inl (Thrown (''Error while reading page from file: '' @ file_error_to_string 23)),
      pages_opened)" by blast
  with opened inv ok args miss fails view_example [of True] show ?thesis by simp
qed

subsection \<open>The argument checks of \<open>view\<close> in natural numbers\<close>

lemma unat_ucast_u32_size_t: "unat (ucast (w :: u32) :: size_t) = unat w"
  by (simp add: unsigned_ucast_eq take_bit_nat_eq_self unsigned_less [of w, THEN less_trans])

lemma interval_check_nat:
  fixes pos cnt :: size_t and ps :: u32
  shows "\<not> (pos \<ge> ucast ps \<or> pos + cnt > ucast ps \<or> pos + cnt < pos) \<longleftrightarrow>
         unat pos < unat ps \<and> unat pos + unat cnt \<le> unat ps"
proof
  assume a: "\<not> (pos \<ge> ucast ps \<or> pos + cnt > ucast ps \<or> pos + cnt < pos)"
  then have "pos \<le> pos + cnt" by (simp add: not_less)
  then have "unat pos + unat cnt < 2 ^ LENGTH(64)" by (simp only: no_olen_add_nat)
  then have "unat (pos + cnt) = unat pos + unat cnt" by (rule unat_add_lem [THEN iffD1])
  with a show "unat pos < unat ps \<and> unat pos + unat cnt \<le> unat ps"
    by (simp add: word_le_nat_alt word_less_nat_alt unat_ucast_u32_size_t not_le not_less)
next
  assume b: "unat pos < unat ps \<and> unat pos + unat cnt \<le> unat ps"
  have "unat ps < 2 ^ 32" using unsigned_less [of ps] by simp
  with b have "unat pos + unat cnt < 2 ^ LENGTH(64)" by simp
  then have "unat (pos + cnt) = unat pos + unat cnt" by (rule unat_add_lem [THEN iffD1])
  with b show "\<not> (pos \<ge> ucast ps \<or> pos + cnt > ucast ps \<or> pos + cnt < pos)"
    by (simp add: word_le_nat_alt word_less_nat_alt unat_ucast_u32_size_t not_le not_less)
qed

lemma view_args_ok_nat:
  "view_args_ok p index cnt pos \<longleftrightarrow>
     index \<noteq> 0 \<and> unat index < unat (pages_size p) \<and>
     unat pos < pages_page_size p \<and> unat pos + unat cnt \<le> pages_page_size p"
  unfolding view_args_ok_def interval_check_nat
  by (auto simp: pages_size_def pages_page_size_def word_le_nat_alt not_le)

subsection \<open>Loads and stores in \<open>cache_data\<close>\<close>

lemma length_store:
  "ptr + length bytes \<le> length mem \<Longrightarrow> length (store mem ptr bytes) = length mem"
  by (simp add: store_def)

lemma load_store_same:
  "ptr + length bytes \<le> length mem \<Longrightarrow> load (store mem ptr bytes) ptr (length bytes) = bytes"
  by (simp add: store_def load_def)

lemma load_store_below:
  "a + n \<le> ptr \<Longrightarrow> ptr + length bytes \<le> length mem \<Longrightarrow>
   load (store mem ptr bytes) a n = load mem a n"
  by (auto simp: store_def load_def drop_take min_def)

lemma load_store_above:
  "ptr + length bytes \<le> a \<Longrightarrow> ptr + length bytes \<le> length mem \<Longrightarrow>
   load (store mem ptr bytes) a n = load mem a n"
  by (simp add: store_def load_def)

lemma load_part:
  "off + c \<le> n \<Longrightarrow> load mem (a + off) c = take c (drop off (load mem a n))"
  by (simp add: load_def drop_take add.commute)

lemma length_file_read:
  "file_read d f c pos = Inr bytes \<Longrightarrow> pos + c \<le> length (disk_bytes d) \<Longrightarrow>
   length bytes = c \<and> bytes = load (disk_bytes d) pos c"
  by (auto simp: file_read_def load_def Let_def split: if_splits)

subsection \<open>The slots of \<open>cache_data\<close>\<close>

lemma slots_set: "set (map (\<lambda>i. i * ps) [0..<N + 1]) = (\<lambda>i. i * ps) ` {..N}"
  by (simp only: set_map set_upt) auto

lemma slot_in_range:
  assumes "s \<in> set (map (\<lambda>i. i * ps) [0..<N + 1])"
  shows "s + ps \<le> ps * (N + 1)"
proof -
  from assms obtain i where i: "i \<le> N" "s = i * ps" unfolding slots_set by auto
  then have "s + ps = (i + 1) * ps" by simp
  also from i(1) have "\<dots> \<le> (N + 1) * ps" by (intro mult_le_mono1) simp
  finally show ?thesis by (simp add: mult.commute)
qed

lemma slots_apart:
  assumes "a \<in> set (map (\<lambda>i. i * ps) [0..<N + 1])" "b \<in> set (map (\<lambda>i. i * ps) [0..<N + 1])"
    "a \<noteq> b"
  shows "a + ps \<le> b \<or> b + ps \<le> a"
proof -
  from assms obtain i j where ij: "a = i * ps" "b = j * ps" "i \<noteq> j" unfolding slots_set by auto
  then consider "i + 1 \<le> j" | "j + 1 \<le> i" by linarith
  then show ?thesis
  proof cases
    case 1
    then have "(i + 1) * ps \<le> j * ps" by (rule mult_le_mono1)
    with ij show ?thesis by simp
  next
    case 2
    then have "(j + 1) * ps \<le> i * ps" by (rule mult_le_mono1)
    with ij show ?thesis by simp
  qed
qed

lemma slots_distinct:
  assumes "0 < ps"
  shows "distinct (map (\<lambda>i. i * ps) [0..<N + 1])"
proof -
  from assms have "inj_on (\<lambda>i. i * ps) (set [0..<N + 1])" by (intro inj_onI) simp
  then show ?thesis by (simp only: distinct_map distinct_upt simp_thms)
qed

lemma slots_geometry:
  assumes ps: "0 < ps"
    and eq: "mset pool + mset cs = mset (map (\<lambda>i. i * ps) [0..<N + 1])"
    and a: "a \<in> set pool" and b: "b \<in> set cs"
  shows "(a + ps \<le> b \<or> b + ps \<le> a) \<and> a + ps \<le> ps * (N + 1) \<and> b + ps \<le> ps * (N + 1)"
proof -
  let ?S = "map (\<lambda>i. i * ps) [0..<N + 1]"
  from eq have m: "mset (pool @ cs) = mset ?S" by simp
  then have s: "set (pool @ cs) = set ?S" by (rule mset_eq_setD)
  from m slots_distinct [OF ps, of N] have "distinct (pool @ cs)"
    by (metis mset_eq_imp_distinct_iff)
  with a b have "a \<noteq> b" by auto
  moreover from s a b have "a \<in> set ?S" "b \<in> set ?S" by auto
  ultimately show ?thesis using slots_apart [of a ps N b] slot_in_range [of a ps N]
      slot_in_range [of b ps N] by blast
qed

lemma cached_find:
  "mset (cached (p\<lparr>cache_queue := snd (twoq_find (cache_queue p) k)\<rparr>)) = mset (cached p)"
  by (simp add: cached_def twoq_find_parts lru_find_mset)

lemma cached_push_None:
  "twoq_push (cache_queue p) x = Inr (None, q') \<Longrightarrow>
   mset (cached (p\<lparr>cache_data := dat, cache_queue := q', cache_pool := pool\<rparr>)) =
   mset (cached p) + {#x#}"
  by (simp add: cached_def twoq_push_None)

lemma cached_push_Some:
  "twoq_push (cache_queue p) x = Inr (Some f, q') \<Longrightarrow>
   mset (cached (p\<lparr>cache_data := dat, cache_queue := q', cache_pool := pool\<rparr>)) + {#f#} =
   mset (cached p) + {#x#}"
  using twoq_push_Some [of "cache_queue p" x f q'] by (simp add: cached_def)

lemma twoq_find_Some_cached:
  "twoq_find (cache_queue p) k = (Some slot, q) \<Longrightarrow> (k, slot) \<in> set (cached p)"
  using twoq_find_Some [of "cache_queue p" k slot] by (simp add: cached_def)

subsection \<open>\<open>view\<close> keeps \<open>pages_inv\<close> and returns the bytes of the file\<close>

lemma load_from_slot:
  assumes "load mem slot ps = load bytes (k * ps) ps" "off + c \<le> ps"
  shows "load mem (slot + off) c = load bytes (k * ps + off) c"
  using assms load_part [of off c ps mem slot] load_part [of off c ps bytes "k * ps"] by simp

lemma mset_transfer:
  fixes A :: "'a multiset"
  assumes "A + s = P" "P + C = S" "C' + F = C + s"
  shows "A + F + C' = S"
proof -
  have "A + F + C' = A + (C' + F)" by (simp add: ac_simps)
  also have "\<dots> = (A + s) + C" by (simp add: assms(3) ac_simps)
  finally show ?thesis by (simp add: assms(1,2))
qed

lemma view_hit_pages_inv:
  assumes inv: "pages_inv d p"
    and ok: "view_args_ok p index cnt pos"
    and f: "twoq_find (cache_queue p) index = (Some slot, q)"
  shows "pages_inv d (p\<lparr>cache_queue := q\<rparr>) \<and>
         load (cache_data p) (slot + unat pos) (unat cnt) =
         load (disk_bytes d) (unat index * pages_page_size p + unat pos) (unat cnt)"
proof -
  let ?p' = "p\<lparr>cache_queue := q\<rparr>"
  from f have q: "q = snd (twoq_find (cache_queue p) index)" by simp
  have m: "mset (cached ?p') = mset (cached p)" unfolding q by (rule cached_find)
  then have s: "set (cached ?p') = set (cached p)" by (rule mset_eq_setD)
  from m have ms: "mset (map snd (cached ?p')) = mset (map snd (cached p))"
    by (metis mset_map)
  from inv have "twoq_inv (cache_size p) q" unfolding q pages_inv_def
    by (simp add: twoq_find_inv)
  with inv ms s have 1: "pages_inv d ?p'"
    by (simp add: pages_inv_def pages_page_size_def pages_size_def)
  from twoq_find_Some_cached [OF f] inv
  have "load (cache_data p) slot (pages_page_size p) =
        load (disk_bytes d) (unat index * pages_page_size p) (pages_page_size p)"
    by (auto simp: pages_inv_def)
  moreover from ok have "unat pos + unat cnt \<le> pages_page_size p"
    by (simp add: view_args_ok_nat)
  ultimately have "load (cache_data p) (slot + unat pos) (unat cnt) =
      load (disk_bytes d) (unat index * pages_page_size p + unat pos) (unat cnt)"
    by (rule load_from_slot)
  with 1 show ?thesis by simp
qed

lemma view_miss_pages_inv:
  assumes inv: "pages_inv d p"
    and ok: "view_args_ok p index cnt pos"
    and pool: "cache_pool p \<noteq> []"
    and rd: "file_read d (file_iface p) (pages_page_size p) (pages_page_size p * unat index) = Inr bytes"
    and push: "twoq_push (cache_queue p) (index, last (cache_pool p)) = Inr (freed, q')"
  shows "pages_inv d (p\<lparr>cache_data := store (cache_data p) (last (cache_pool p)) bytes,
                        cache_queue := q',
                        cache_pool := butlast (cache_pool p) @
                          (case freed of None \<Rightarrow> [] | Some f \<Rightarrow> [snd f])\<rparr>) \<and>
         load (store (cache_data p) (last (cache_pool p)) bytes)
              (last (cache_pool p) + unat pos) (unat cnt) =
         load (disk_bytes d) (unat index * pages_page_size p + unat pos) (unat cnt)"
proof -
  let ?ps = "pages_page_size p" and ?N = "cache_size p"
  let ?slot = "last (cache_pool p)"
  let ?dat = "store (cache_data p) ?slot bytes"
  let ?pool = "butlast (cache_pool p) @ (case freed of None \<Rightarrow> [] | Some f \<Rightarrow> [snd f])"
  let ?p' = "p\<lparr>cache_data := ?dat, cache_queue := q', cache_pool := ?pool\<rparr>"
  let ?S = "map (\<lambda>i. i * ?ps) [0..<?N + 1]"
  from inv have ps: "0 < ?ps"
    and len: "length (cache_data p) = ?ps * (?N + 1)"
    and eq: "mset (cache_pool p) + mset (map snd (cached p)) = mset ?S"
    and dat: "\<And>k s. (k, s) \<in> set (cached p) \<Longrightarrow>
        load (cache_data p) s ?ps = load (disk_bytes d) (unat k * ?ps) ?ps"
    and tq: "twoq_inv ?N (cache_queue p)"
    by (auto simp: pages_inv_def)
  from inv have "length (disk_bytes d) = unat (pages_size p) * ?ps"
    by (simp add: pages_inv_def)
  moreover from ok have "unat index + 1 \<le> unat (pages_size p)"
    by (simp add: view_args_ok_nat)
  then have "(unat index + 1) * ?ps \<le> unat (pages_size p) * ?ps"
    by (rule mult_le_mono1)
  ultimately have within: "?ps * unat index + ?ps \<le> length (disk_bytes d)"
    by (simp add: mult.commute)
  have bytes: "length bytes = ?ps" "bytes = load (disk_bytes d) (unat index * ?ps) ?ps"
    using length_file_read [OF rd within] unfolding mult.commute [of "unat index" ?ps] by blast+
  from pool have slot_pool: "?slot \<in> set (cache_pool p)" by simp
  from pool have split: "mset (butlast (cache_pool p)) + {#?slot#} = mset (cache_pool p)"
    by (cases "cache_pool p" rule: rev_cases) simp_all
  from eq have "set (cache_pool p) \<subseteq> set ?S"
    by (metis mset_eq_setD set_append set_mset_mset mset_append Un_upper1)
  with slot_pool have "?slot \<in> set ?S" by blast
  from slot_in_range [OF this] len bytes(1)
  have fit: "?slot + length bytes \<le> length (cache_data p)" by simp
  \<comment> \<open>the entries after the push\<close>
  have new: "mset (cached ?p') + mset (case freed of None \<Rightarrow> [] | Some f \<Rightarrow> [f]) =
      mset (cached p) + {#(index, ?slot)#}"
  proof (cases freed)
    case None
    with push have "twoq_push (cache_queue p) (index, ?slot) = Inr (None, q')" by simp
    from cached_push_None [OF this] None show ?thesis by simp
  next
    case (Some f)
    with push have "twoq_push (cache_queue p) (index, ?slot) = Inr (Some f, q')" by simp
    from cached_push_Some [OF this] Some show ?thesis by simp
  qed
  then have "image_mset snd (mset (cached ?p') + mset (case freed of None \<Rightarrow> [] | Some f \<Rightarrow> [f])) =
      image_mset snd (mset (cached p) + {#(index, ?slot)#})" by (rule arg_cong)
  then have c': "mset (map snd (cached ?p')) + mset (case freed of None \<Rightarrow> [] | Some f \<Rightarrow> [snd f]) =
      mset (map snd (cached p)) + {#?slot#}"
    by (cases freed) simp_all
  have pool': "mset ?pool =
      mset (butlast (cache_pool p)) + mset (case freed of None \<Rightarrow> [] | Some f \<Rightarrow> [snd f])"
    by simp
  have eq': "mset ?pool + mset (map snd (cached ?p')) = mset ?S"
    unfolding pool' by (rule mset_transfer [OF split eq c'])
  have sub: "set (cached ?p') \<subseteq> insert (index, ?slot) (set (cached p))"
  proof
    fix x assume "x \<in> set (cached ?p')"
    then have "x \<in># mset (cached ?p') + mset (case freed of None \<Rightarrow> [] | Some f \<Rightarrow> [f])"
      by simp
    then have "x \<in># mset (cached p) + {#(index, ?slot)#}" by (simp only: new)
    then show "x \<in> insert (index, ?slot) (set (cached p))" by auto
  qed
  have dat': "load ?dat s ?ps = load (disk_bytes d) (unat k * ?ps) ?ps"
    if "(k, s) \<in> set (cached ?p')" for k s
  proof (cases "(k, s) = (index, ?slot)")
    case True
    with load_store_same [OF fit] bytes show ?thesis by simp
  next
    case False
    with sub that have old: "(k, s) \<in> set (cached p)" by blast
    then have "s \<in> set (map snd (cached p))" by force
    from slots_geometry [OF ps eq slot_pool this]
    have "?slot + ?ps \<le> s \<or> s + ?ps \<le> ?slot" by blast
    then have "load ?dat s ?ps = load (cache_data p) s ?ps"
      using load_store_above [OF _ fit, of s ?ps] load_store_below [OF _ fit, of s ?ps]
      by (auto simp: bytes(1))
    with dat [OF old] show ?thesis by simp
  qed
  from twoq_push_inv [OF tq push] have tq': "twoq_inv ?N q'" .
  from inv tq' eq' dat' length_store [OF fit] have 1: "pages_inv d ?p'"
    by (auto simp: pages_inv_def pages_page_size_def pages_size_def)
  from ok have "unat pos + unat cnt \<le> ?ps" by (simp add: view_args_ok_nat)
  moreover from load_store_same [OF fit] bytes
  have "load ?dat ?slot ?ps = load (disk_bytes d) (unat index * ?ps) ?ps" by simp
  ultimately have "load ?dat (?slot + unat pos) (unat cnt) =
      load (disk_bytes d) (unat index * ?ps + unat pos) (unat cnt)"
    by (intro load_from_slot)
  with 1 show ?thesis by simp
qed

lemma view_pages_inv:
  assumes inv: "pages_inv d p" and v: "view ndebug d p index cnt pos = (Inr ptr, p')"
  shows "pages_inv d p' \<and> cache_size p' = cache_size p \<and> db_hdr p' = db_hdr p \<and>
         load (cache_data p') ptr (unat cnt) =
         load (disk_bytes d) (unat index * pages_page_size p + unat pos) (unat cnt)"
  using v
proof (cases rule: view_Inr_cases)
  case (hit slot q)
  with view_hit_pages_inv [OF inv hit(1,2)] show ?thesis by simp
next
  case (miss bytes freed q')
  with view_miss_pages_inv [OF inv miss(1,3,4,5)] show ?thesis by simp
qed

subsection \<open>When \<open>view\<close> returns\<close>

lemma pages_inv_pool_inv:
  assumes "pages_inv d p"
  shows "pool_inv p"
proof -
  from assms have "size (mset (cache_pool p) + mset (map snd (cached p))) =
      size (mset (map (\<lambda>i. i * pages_page_size p) [0..<cache_size p + 1]))"
    by (simp only: pages_inv_def)
  then have "length (cache_pool p) + length (cached p) = cache_size p + 1"
    by (simp del: upt_Suc)
  with assms show ?thesis by (simp add: pool_inv_def pages_inv_def queue_slots_def cached_def)
qed

lemma pages_inv_is_valid:
  assumes "pages_inv d p"
  shows "is_valid p"
proof -
  from assms have l: "length (cache_data p) = pages_page_size p * (cache_size p + 1)"
    and ps: "0 < pages_page_size p" and fh: "file_handle (file_iface p)"
    by (simp_all add: pages_inv_def)
  from l ps have "cache_data p \<noteq> []" by (cases "cache_data p") simp_all
  with fh pool_inv_pool_nonempty [OF pages_inv_pool_inv [OF assms]] show ?thesis
    by (simp add: is_valid_def file_is_valid_def)
qed

lemma twoq_push_Some_nonempty:
  assumes "twoq_push q x = Inr (Some f, q')"
  shows "0 < length (fifo_items (twoq_in q)) + length (lru_items (twoq_main q))"
proof (cases "fifo_find (twoq_out q) (fst x) = None")
  case True
  with assms obtain i where "fifo_push (twoq_in q) x = Inr (Some f, i)"
    by (auto simp: twoq_push_def split: sum.splits option.splits prod.splits)
  from fifo_push_evicted_mem [OF this] show ?thesis by (cases "fifo_items (twoq_in q)") auto
next
  case False
  with assms obtain m where "lru_push (twoq_main q) x = Inr (Some f, m)"
    by (auto simp: twoq_push_def split: sum.splits prod.splits)
  then show ?thesis
    by (auto simp: lru_push_def lru_item_push_def split: if_splits list.splits)
qed

lemma view_miss_eq:
  assumes valid: "ndebug \<or> is_valid p"
    and ok: "view_args_ok p index cnt pos"
    and f: "fst (twoq_find (cache_queue p) index) = None"
    and pool: "cache_pool p \<noteq> []"
    and rd: "file_read d (file_iface p) (pages_page_size p) (pages_page_size p * unat index) = Inr bytes"
    and push: "twoq_push (cache_queue p) (index, last (cache_pool p)) = Inr (freed, q')"
    and room: "freed \<noteq> None \<longrightarrow> ndebug \<or> length (butlast (cache_pool p)) < cache_size p"
  shows "view ndebug d p index cnt pos =
     (Inr (last (cache_pool p) + unat pos),
      p\<lparr>cache_data := store (cache_data p) (last (cache_pool p)) bytes,
        cache_queue := q',
        cache_pool := butlast (cache_pool p) @ (case freed of None \<Rightarrow> [] | Some f \<Rightarrow> [snd f])\<rparr>)"
proof -
  from f have "twoq_find (cache_queue p) index = (None, cache_queue p)"
    using twoq_find_None [of "cache_queue p" index] by (simp add: prod_eq_iff)
  moreover have "p\<lparr>cache_queue := cache_queue p\<rparr> = p" by simp
  ultimately show ?thesis using valid ok pool rd push room
    by (cases freed) (auto simp: view_def view_args_ok_def Let_def pages_page_size_def)
qed

lemma view_succeeds:
  assumes inv: "pages_inv d p" and N: "4 \<le> cache_size p" and readable: "read_error d = 0"
    and ok: "view_args_ok p index cnt pos"
  shows "\<exists>ptr p'. view ndebug d p index cnt pos = (Inr ptr, p')"
proof (cases "fst (twoq_find (cache_queue p) index)")
  case (Some slot)
  then obtain q where "twoq_find (cache_queue p) index = (Some slot, q)"
    by (cases "twoq_find (cache_queue p) index") simp
  with ok pages_inv_is_valid [OF inv] show ?thesis
    by (simp add: view_def view_args_ok_def)
next
  case None
  note pinv = pages_inv_pool_inv [OF inv]
  note pool = pool_inv_pool_nonempty [OF pinv]
  let ?ps = "pages_page_size p"
  from ok have "unat index < unat (pages_size p)" by (simp add: view_args_ok_nat)
  then have "unat index + 1 \<le> unat (pages_size p)" by simp
  then have "(unat index + 1) * ?ps \<le> unat (pages_size p) * ?ps" by (rule mult_le_mono1)
  with inv have "?ps * unat index + ?ps \<le> length (disk_bytes d)"
    by (simp add: pages_inv_def mult.commute)
  with readable obtain bytes where
    rd: "file_read d (file_iface p) ?ps (?ps * unat index) = Inr bytes"
    by (simp add: file_read_def)
  from pinv have "twoq_inv (cache_size p) (cache_queue p)" by (simp add: pool_inv_def)
  from twoq_push_total [OF this N, of "(index, last (cache_pool p))"] obtain freed q' where
    push: "twoq_push (cache_queue p) (index, last (cache_pool p)) = Inr (freed, q')" by blast
  have room: "freed \<noteq> None \<longrightarrow> ndebug \<or> length (butlast (cache_pool p)) < cache_size p"
  proof (cases freed)
    case (Some f)
    with twoq_push_Some_nonempty [of "cache_queue p" _ f q'] push
    have "0 < queue_slots p" by (simp add: queue_slots_def)
    with pinv N show ?thesis by (auto simp: pool_inv_def)
  qed simp
  from view_miss_eq [OF _ ok None pool rd push room] pages_inv_is_valid [OF inv]
  show ?thesis by blast
qed

lemma view_bad_index:
  assumes "ndebug \<or> is_valid p" "index = 0 \<or> pages_size p \<le> index"
  shows "view ndebug d p index cnt pos = (Inl (Thrown ''Invalid page index to view.''), p)"
  using assms by (auto simp: view_def pages_size_def)

lemma view_bad_interval:
  assumes "ndebug \<or> is_valid p" "index \<noteq> 0" "index < pages_size p"
    "pages_page_size p \<le> unat pos \<or> pages_page_size p < unat pos + unat cnt"
  shows "view ndebug d p index cnt pos =
     (Inl (Thrown ''Requested data interval to view exceeds page size.''), p)"
proof -
  from assms(4) have "\<not> (unat pos < unat (hdr_page_size (db_hdr p)) \<and>
      unat pos + unat cnt \<le> unat (hdr_page_size (db_hdr p)))"
    by (auto simp: pages_page_size_def)
  then have "pos \<ge> ucast (hdr_page_size (db_hdr p)) \<or>
      pos + cnt > ucast (hdr_page_size (db_hdr p)) \<or> pos + cnt < pos"
    using interval_check_nat [of "hdr_page_size (db_hdr p)" pos cnt] by blast
  with assms(1-3) show ?thesis
    by (simp add: view_def pages_size_def not_le)
qed

lemma pages_open_pages_inv:
  assumes "pages_open ndebug d (pages_init N) = Inr (e, p)" "mycode e = errors_none"
  shows "pages_inv d p \<and> cache_size p = N"
  using assms
proof (cases rule: pages_open_success)
  case (1 h)
  let ?ps = "unat (hdr_page_size h)"
  from page_size_allowed_pos [OF 1(4)] have ps: "0 < ?ps" "?ps * (N + 1) \<noteq> 0" by simp_all
  have tq: "twoq_inv N (twoq_clear (twoq_init N :: (u32, nat) twoq))"
    by (rule twoq_clear_inv [OF twoq_inv_init])
  have c: "cached p = []" unfolding 1(7)
    by (simp add: cached_def cache_init_def pages_init_def twoq_clear_def fifo_clear_def
        lru_clear_def)
  have pool: "cache_pool p = map (\<lambda>i. i * ?ps) [0..<N + 1]" unfolding 1(7)
    using ps(2) by (simp add: cache_init_def pages_init_def del: upt_Suc)
  have rest: "cache_size p = N" "db_hdr p = h" "file_handle (file_iface p)"
    "length (cache_data p) = ?ps * (N + 1)" "cache_queue p = twoq_clear (twoq_init N)"
    unfolding 1(7) by (simp_all add: cache_init_def pages_init_def)
  show ?thesis unfolding pages_inv_def c pool pages_page_size_def pages_size_def
    using tq ps(1) 1(5) rest by simp
qed

lemma view_all_inv:
  assumes "pages_inv d p" "4 \<le> cache_size p" "read_error d = 0"
    "\<forall>(index, cnt, pos) \<in> set calls. view_args_ok p index cnt pos"
  shows "view_all ndebug d p calls =
     Inr (map (\<lambda>(index, cnt, pos).
            load (disk_bytes d) (unat index * pages_page_size p + unat pos) (unat cnt)) calls)"
  using assms
proof (induction calls arbitrary: p)
  case Nil
  show ?case by simp
next
  case (Cons call calls)
  obtain index cnt pos where call: "call = (index, cnt, pos)" by (cases call)
  with Cons.prems(4) have ok: "view_args_ok p index cnt pos" by simp
  from view_succeeds [OF Cons.prems(1-3) ok] obtain ptr p' where
    v: "view ndebug d p index cnt pos = (Inr ptr, p')" by blast
  from view_pages_inv [OF Cons.prems(1) v]
  have inv': "pages_inv d p'" and same: "cache_size p' = cache_size p" "db_hdr p' = db_hdr p"
    and bytes: "load (cache_data p') ptr (unat cnt) =
      load (disk_bytes d) (unat index * pages_page_size p + unat pos) (unat cnt)"
    by simp_all
  from same(2) have hdr: "pages_page_size p' = pages_page_size p"
    "\<And>i c off. view_args_ok p' i c off = view_args_ok p i c off"
    by (simp_all add: pages_page_size_def view_args_ok_def)
  from Cons.prems(4) hdr(2) have "\<forall>(index, cnt, pos) \<in> set calls. view_args_ok p' index cnt pos"
    by simp
  from Cons.IH [OF inv' _ Cons.prems(3) this] Cons.prems(2) same(1)
  have "view_all ndebug d p' calls =
     Inr (map (\<lambda>(index, cnt, pos).
            load (disk_bytes d) (unat index * pages_page_size p + unat pos) (unat cnt)) calls)"
    by (simp add: hdr(1))
  with v bytes call show ?case by simp
qed

text \<open>
  C1 (as amended). Let \<open>open\<close> succeed on a new \<open>pages (N)\<close> with \<open>N \<ge> 4\<close>, and let the
  reads of the file succeed. Then every sequence of \<open>view (index, count, offset)\<close> calls
  with \<open>1 \<le> index < length\<close>, \<open>offset < page_size\<close> and \<open>offset + count \<le> page_size\<close> returns,
  and the \<open>count\<close> bytes at the pointer of each call are the bytes of the file from position
  \<open>index * page_size + offset\<close> on, whatever the calls before it left in the cache.
\<close>

theorem view_all_transparent:
  assumes "pages_open ndebug d (pages_init N) = Inr (e, p)" and "mycode e = errors_none"
    and "4 \<le> N" and "read_error d = 0"
    and "\<forall>(index, cnt, pos) \<in> set calls.
           index \<noteq> 0 \<and> index < pages_size p \<and>
           unat pos < pages_page_size p \<and> unat pos + unat cnt \<le> pages_page_size p"
  shows "view_all ndebug d p calls =
     Inr (map (\<lambda>(index, cnt, pos).
            load (disk_bytes d) (unat index * pages_page_size p + unat pos) (unat cnt)) calls)"
proof -
  from pages_open_pages_inv [OF assms(1,2)] have inv: "pages_inv d p" "cache_size p = N"
    by simp_all
  from assms(5) have "\<forall>(index, cnt, pos) \<in> set calls. view_args_ok p index cnt pos"
    by (auto simp: view_args_ok_nat word_less_nat_alt)
  with inv assms(3,4) show ?thesis by (intro view_all_inv) simp_all
qed

lemma disk_2_pages_loads:
  "load (disk_bytes disk_2_pages) 4096 16 = replicate 16 7"
  "load (disk_bytes disk_2_pages) 8184 8 = replicate 8 7"
  by (simp_all add: load_def disk_2_pages_def signature_def)

theorem view_all_transparent_witness:
  "pages_open True disk_2_pages (pages_init 4) = Inr (error_none, pages_opened) \<and>
   mycode error_none = errors_none \<and> (4::nat) \<le> 4 \<and> read_error disk_2_pages = 0 \<and>
   (1::u32) \<noteq> 0 \<and> (1::u32) < pages_size pages_opened \<and>
   unat (0 :: size_t) < pages_page_size pages_opened \<and>
   unat (0 :: size_t) + unat (16 :: size_t) \<le> pages_page_size pages_opened \<and>
   unat (4088 :: size_t) < pages_page_size pages_opened \<and>
   unat (4088 :: size_t) + unat (8 :: size_t) \<le> pages_page_size pages_opened \<and>
   view_all True disk_2_pages pages_opened [(1, 16, 0), (1, 8, 4088), (1, 16, 0)] =
     Inr [replicate 16 7, replicate 8 7, replicate 16 7]"
proof -
  have opened: "pages_open True disk_2_pages (pages_init 4) = Inr (error_none, pages_opened)"
    by (rule pages_open_example)
  have none: "mycode error_none = errors_none" by (simp add: error_none_def)
  have N: "(4::nat) \<le> 4" by simp
  have readable: "read_error disk_2_pages = 0" by (simp add: disk_2_pages_def)
  have args: "(1::u32) \<noteq> 0" "(1::u32) < pages_size pages_opened"
    "unat (0 :: size_t) < pages_page_size pages_opened"
    "unat (0 :: size_t) + unat (16 :: size_t) \<le> pages_page_size pages_opened"
    "unat (4088 :: size_t) < pages_page_size pages_opened"
    "unat (4088 :: size_t) + unat (8 :: size_t) \<le> pages_page_size pages_opened"
    by (simp_all add: pages_size_def pages_page_size_def pages_opened_def hdr_838_def
        word_less_nat_alt)
  then have calls: "\<forall>(index, cnt, pos) \<in> set ([(1, 16, 0), (1, 8, 4088), (1, 16, 0)] :: (u32 \<times> size_t \<times> size_t) list).
      index \<noteq> 0 \<and> index < pages_size pages_opened \<and>
      unat pos < pages_page_size pages_opened \<and>
      unat pos + unat cnt \<le> pages_page_size pages_opened"
    by simp
  have ps: "pages_page_size pages_opened = 4096"
    by (simp add: pages_page_size_def pages_opened_def hdr_838_def)
  from view_all_transparent [OF opened none N readable calls]
  have "view_all True disk_2_pages pages_opened [(1, 16, 0), (1, 8, 4088), (1, 16, 0)] =
     Inr [replicate 16 7, replicate 8 7, replicate 16 7]"
    by (simp add: ps disk_2_pages_loads)
  with opened none N readable args show ?thesis by blast
qed

lemma pages_open_example_1:
  "pages_open True disk_2_pages (pages_init 1) = Inr (error_none, pages_opened_1)"
  apply (simp add: pages_open_def is_valid_def pages_init_def file_init_def file_is_valid_def
      file_open_def file_read_full db_hdr_of_bytes_store disk_2_pages_length disk_2_pages_header
      disk_2_pages_read_error)
  apply (simp add: disk_2_pages_def hdr_838_def page_size_allowed_def Let_def cache_init_def
      pages_opened_1_def twoq_init_def twoq_clear_def fifo_clear_def lru_clear_def fifo_init_def
      lru_init_def upt_rec)
  done

lemma disk_2_pages_readable: "read_error disk_2_pages = 0"
  by (simp add: disk_2_pages_def)

lemma view_example_1:
  "fst (view True disk_2_pages pages_opened_1 1 16 0) = Inl Undefined_behaviour"
  by (simp add: view_def pages_opened_1_def hdr_838_def twoq_find_def lru_find_def fifo_find_def
      file_read_def disk_2_pages_length disk_2_pages_page_1 word_le_nat_alt word_less_nat_alt
      twoq_push_def fifo_push_def fifo_item_push_def disk_2_pages_readable)

lemma view_example_page_end:
  "view True disk_2_pages pages_opened 1 0 4096 =
     (Inl (Thrown ''Requested data interval to view exceeds page size.''), pages_opened)"
  by (simp add: view_def pages_opened_def hdr_838_def word_le_nat_alt word_less_nat_alt)

theorem view_all_counterexample:
  "pages_open True disk_2_pages (pages_init 4) = Inr (error_none, pages_opened) \<and>
   (1::u32) \<noteq> 0 \<and> (1::u32) < pages_size pages_opened \<and>
   unat (4096 :: size_t) + unat (0 :: size_t) \<le> pages_page_size pages_opened \<and>
   view_all True disk_2_pages pages_opened [(1, 0, 4096)] =
     Inl (Thrown ''Requested data interval to view exceeds page size.'') \<and>
   pages_open True disk_2_pages (pages_init 1) = Inr (error_none, pages_opened_1) \<and>
   (1::u32) < pages_size pages_opened_1 \<and>
   unat (0 :: size_t) + unat (16 :: size_t) \<le> pages_page_size pages_opened_1 \<and>
   view_all True disk_2_pages pages_opened_1 [(1, 16, 0)] = Inl Undefined_behaviour \<and>
   pages_new False 1 = Inl Assertion_failed"
proof -
  have "view_all True disk_2_pages pages_opened [(1, 0, 4096)] =
     Inl (Thrown ''Requested data interval to view exceeds page size.'')"
    by (simp add: view_example_page_end)
  moreover have "view_all True disk_2_pages pages_opened_1 [(1, 16, 0)] = Inl Undefined_behaviour"
    using view_example_1
    by (cases "view True disk_2_pages pages_opened_1 1 16 0") (simp split: sum.splits)
  moreover have "pages_new False 1 = Inl Assertion_failed"
    by (simp add: pages_new_def twoq_new_def fifo_new_def)
  moreover have "(1::u32) < pages_size pages_opened" "(1::u32) < pages_size pages_opened_1"
    "unat (4096 :: size_t) + unat (0 :: size_t) \<le> pages_page_size pages_opened"
    "unat (0 :: size_t) + unat (16 :: size_t) \<le> pages_page_size pages_opened_1"
    by (simp_all add: pages_size_def pages_page_size_def pages_opened_def pages_opened_1_def
        hdr_838_def word_less_nat_alt)
  ultimately show ?thesis using pages_open_example [of True] pages_open_example_1 by simp
qed

text \<open>
  C7 (as amended). \<open>open\<close> on a new \<open>pages (N)\<close> establishes \<open>pages_inv\<close>, and every \<open>view\<close>
  that returns keeps it. On an object that satisfies it, with \<open>N \<ge> 4\<close> and a file whose
  reads succeed, \<open>view (index, count, offset)\<close> returns a pointer exactly when
  \<open>1 \<le> index < length\<close>, \<open>offset < page_size\<close> and \<open>offset + count \<le> page_size\<close> (the sum
  taken in the natural numbers, so a sum that overflows \<open>size_t\<close> is too large); for
  \<open>index = 0\<close> or \<open>index \<ge> length\<close> it throws the page-index exception, and for a valid
  index with \<open>offset \<ge> page_size\<close> or \<open>offset + count > page_size\<close> it throws the interval
  exception; in both cases the object is unchanged.
\<close>

theorem view_succeeds_iff:
  "(pages_open ndebug d (pages_init N) = Inr (e, p0) \<and> mycode e = errors_none \<longrightarrow>
      pages_inv d p0 \<and> cache_size p0 = N) \<and>
   (pages_inv d p \<longrightarrow>
      (\<forall>ptr p'. view ndebug d p index cnt pos = (Inr ptr, p') \<longrightarrow>
         pages_inv d p' \<and> cache_size p' = cache_size p)) \<and>
   (pages_inv d p \<and> 4 \<le> cache_size p \<and> read_error d = 0 \<longrightarrow>
      ((\<exists>ptr p'. view ndebug d p index cnt pos = (Inr ptr, p')) \<longleftrightarrow>
         index \<noteq> 0 \<and> index < pages_size p \<and>
         unat pos < pages_page_size p \<and> unat pos + unat cnt \<le> pages_page_size p) \<and>
      (index = 0 \<or> pages_size p \<le> index \<longrightarrow>
         view ndebug d p index cnt pos = (Inl (Thrown ''Invalid page index to view.''), p)) \<and>
      (index \<noteq> 0 \<and> index < pages_size p \<and>
       (pages_page_size p \<le> unat pos \<or> pages_page_size p < unat pos + unat cnt) \<longrightarrow>
         view ndebug d p index cnt pos =
           (Inl (Thrown ''Requested data interval to view exceeds page size.''), p)))"
proof (intro conjI impI allI)
  assume "pages_open ndebug d (pages_init N) = Inr (e, p0) \<and> mycode e = errors_none"
  then have "pages_inv d p0 \<and> cache_size p0 = N" using pages_open_pages_inv by blast
  then show "pages_inv d p0" "cache_size p0 = N" by simp_all
next
  fix ptr p'
  assume "pages_inv d p" "view ndebug d p index cnt pos = (Inr ptr, p')"
  from view_pages_inv [OF this] show "pages_inv d p'" "cache_size p' = cache_size p"
    by simp_all
next
  assume a: "pages_inv d p \<and> 4 \<le> cache_size p \<and> read_error d = 0"
  then have inv: "pages_inv d p" and N: "4 \<le> cache_size p" and readable: "read_error d = 0"
    by simp_all
  show "(\<exists>ptr p'. view ndebug d p index cnt pos = (Inr ptr, p')) \<longleftrightarrow>
     index \<noteq> 0 \<and> index < pages_size p \<and>
     unat pos < pages_page_size p \<and> unat pos + unat cnt \<le> pages_page_size p"
  proof
    assume "\<exists>ptr p'. view ndebug d p index cnt pos = (Inr ptr, p')"
    then obtain ptr p' where "view ndebug d p index cnt pos = (Inr ptr, p')" by blast
    then have "view_args_ok p index cnt pos" by (cases rule: view_Inr_cases)
    then show "index \<noteq> 0 \<and> index < pages_size p \<and>
        unat pos < pages_page_size p \<and> unat pos + unat cnt \<le> pages_page_size p"
      by (simp add: view_args_ok_nat word_less_nat_alt)
  next
    assume "index \<noteq> 0 \<and> index < pages_size p \<and>
        unat pos < pages_page_size p \<and> unat pos + unat cnt \<le> pages_page_size p"
    then have "view_args_ok p index cnt pos"
      by (simp add: view_args_ok_nat word_less_nat_alt)
    from view_succeeds [OF inv N readable this]
    show "\<exists>ptr p'. view ndebug d p index cnt pos = (Inr ptr, p')" .
  qed
next
  assume a: "pages_inv d p \<and> 4 \<le> cache_size p \<and> read_error d = 0"
    and b: "index = 0 \<or> pages_size p \<le> index"
  from a have "pages_inv d p" by simp
  then have "is_valid p" by (rule pages_inv_is_valid)
  with b show "view ndebug d p index cnt pos = (Inl (Thrown ''Invalid page index to view.''), p)"
    by (intro view_bad_index) simp_all
next
  assume a: "pages_inv d p \<and> 4 \<le> cache_size p \<and> read_error d = 0"
    and b: "index \<noteq> 0 \<and> index < pages_size p \<and>
      (pages_page_size p \<le> unat pos \<or> pages_page_size p < unat pos + unat cnt)"
  from a have "pages_inv d p" by simp
  then have "is_valid p" by (rule pages_inv_is_valid)
  with b show "view ndebug d p index cnt pos =
      (Inl (Thrown ''Requested data interval to view exceeds page size.''), p)"
    by (intro view_bad_interval) simp_all
qed

lemma pages_inv_pages_opened: "pages_inv disk_2_pages pages_opened"
  using pages_open_pages_inv [OF pages_open_example [of True]] by (simp add: error_none_def)

theorem view_succeeds_iff_witness:
  "pages_open True disk_2_pages (pages_init 4) = Inr (error_none, pages_opened) \<and>
   mycode error_none = errors_none \<and>
   pages_inv disk_2_pages pages_opened \<and> 4 \<le> cache_size pages_opened \<and>
   read_error disk_2_pages = 0 \<and>
   view True disk_2_pages pages_opened 1 16 0 = (Inr 16384, pages_viewed) \<and>
   pages_inv disk_2_pages pages_viewed \<and>
   (1::u32) \<noteq> 0 \<and> (1::u32) < pages_size pages_opened \<and>
   unat (0 :: size_t) < pages_page_size pages_opened \<and>
   unat (0 :: size_t) + unat (16 :: size_t) \<le> pages_page_size pages_opened \<and>
   pages_size pages_opened \<le> 2 \<and>
   view True disk_2_pages pages_opened 2 16 0 =
     (Inl (Thrown ''Invalid page index to view.''), pages_opened) \<and>
   pages_page_size pages_opened < unat (4090 :: size_t) + unat (16 :: size_t) \<and>
   view True disk_2_pages pages_opened 1 16 4090 =
     (Inl (Thrown ''Requested data interval to view exceeds page size.''), pages_opened)"
proof -
  have opened: "pages_open True disk_2_pages (pages_init 4) = Inr (error_none, pages_opened) \<and>
      mycode error_none = errors_none"
    by (simp add: pages_open_example error_none_def)
  have N: "4 \<le> cache_size pages_opened" by (simp add: pages_opened_def)
  have args: "(1::u32) \<noteq> 0" "(1::u32) < pages_size pages_opened"
    "unat (0 :: size_t) < pages_page_size pages_opened"
    "unat (0 :: size_t) + unat (16 :: size_t) \<le> pages_page_size pages_opened"
    "pages_size pages_opened \<le> 2"
    "pages_page_size pages_opened < unat (4090 :: size_t) + unat (16 :: size_t)"
    by (simp_all add: pages_size_def pages_page_size_def pages_opened_def hdr_838_def
        word_less_nat_alt)
  note v = view_example [of True]
  note t1 = view_succeeds_iff [of True disk_2_pages 4 error_none pages_opened pages_opened 1 16 0]
  note t2 = view_succeeds_iff [of True disk_2_pages 4 error_none pages_opened pages_opened 2 16 0]
  note t3 = view_succeeds_iff [of True disk_2_pages 4 error_none pages_opened pages_opened 1 16 4090]
  from t1 opened have inv: "pages_inv disk_2_pages pages_opened" by blast
  from t1 inv v have inv': "pages_inv disk_2_pages pages_viewed" by blast
  from t2 inv N disk_2_pages_readable args(5)
  have bad_index: "view True disk_2_pages pages_opened 2 16 0 =
     (Inl (Thrown ''Invalid page index to view.''), pages_opened)" by blast
  from t3 inv N disk_2_pages_readable args(1,2,6)
  have bad_interval: "view True disk_2_pages pages_opened 1 16 4090 =
     (Inl (Thrown ''Requested data interval to view exceeds page size.''), pages_opened)"
    by blast
  from opened inv N disk_2_pages_readable v inv' args bad_index bad_interval
  show ?thesis by simp
qed

theorem view_page_end_counterexample:
  "pages_open True disk_2_pages (pages_init 4) = Inr (error_none, pages_opened) \<and>
   (1::u32) \<noteq> 0 \<and> (1::u32) < pages_size pages_opened \<and>
   unat (4096 :: size_t) + unat (0 :: size_t) \<le> pages_page_size pages_opened \<and>
   view True disk_2_pages pages_opened 1 0 4096 =
     (Inl (Thrown ''Requested data interval to view exceeds page size.''), pages_opened) \<and>
   pages_open True disk_2_pages (pages_init 1) = Inr (error_none, pages_opened_1) \<and>
   (1::u32) < pages_size pages_opened_1 \<and>
   unat (0 :: size_t) + unat (16 :: size_t) \<le> pages_page_size pages_opened_1 \<and>
   read_error disk_2_pages = 0 \<and>
   fst (view True disk_2_pages pages_opened_1 1 16 0) = Inl Undefined_behaviour"
proof -
  have "(1::u32) < pages_size pages_opened" "(1::u32) < pages_size pages_opened_1"
    "unat (4096 :: size_t) + unat (0 :: size_t) \<le> pages_page_size pages_opened"
    "unat (0 :: size_t) + unat (16 :: size_t) \<le> pages_page_size pages_opened_1"
    by (simp_all add: pages_size_def pages_page_size_def pages_opened_def pages_opened_1_def
        hdr_838_def word_less_nat_alt)
  then show ?thesis
    using pages_open_example [of True] pages_open_example_1 view_example_page_end
      view_example_1 disk_2_pages_readable
    by simp
qed

subsection \<open>The bytes of the header\<close>

lemma u32_low_byte: "(ucast (ucast w :: byte) :: u32) + 256 * drop_bit 8 w = w"
proof -
  have "(ucast (ucast w :: byte) :: u32) = take_bit 8 w"
    by (simp add: unsigned_ucast_eq)
  moreover have "256 * drop_bit 8 w = push_bit 8 (drop_bit 8 w)"
    by (simp add: push_bit_eq_mult)
  ultimately show ?thesis
    using bits_ident [of 8 w] by (simp add: add.commute)
qed

lemma u32_high_byte: "(ucast (ucast (drop_bit 24 w) :: byte) :: u32) = drop_bit 24 w"
proof -
  have "take_bit 8 (drop_bit 24 w) = drop_bit 24 w"
    by (rule bit_word_eqI) (auto simp: bit_simps dest: bit_imp_le_length)
  then show ?thesis by (simp add: unsigned_ucast_eq)
qed

lemma mem_get_u32_bytes: "(mem_get (u32_bytes w) :: u32) = w"
proof -
  have 3: "(ucast (ucast (drop_bit 16 w) :: byte) :: u32) + 256 * drop_bit 24 w = drop_bit 16 w"
    using u32_low_byte [of "drop_bit 16 w"] by simp
  have 2: "(ucast (ucast (drop_bit 8 w) :: byte) :: u32) + 256 * drop_bit 16 w = drop_bit 8 w"
    using u32_low_byte [of "drop_bit 8 w"] by simp
  have "(mem_get (u32_bytes w) :: u32) =
      ucast (ucast w :: byte) + 256 * (ucast (ucast (drop_bit 8 w) :: byte) +
        256 * (ucast (ucast (drop_bit 16 w) :: byte) +
          256 * (ucast (ucast (drop_bit 24 w) :: byte))))"
    by (simp add: u32_bytes_def)
  also have "\<dots> = w" by (simp only: u32_high_byte 3 2 u32_low_byte)
  finally show ?thesis .
qed

lemma length_u32_bytes: "length (u32_bytes w) = 4"
  by (simp add: u32_bytes_def)

lemma length_db_hdr_bytes: "length (db_hdr_bytes h) = 24"
  by (simp add: db_hdr_bytes_def length_u32_bytes)

lemma db_hdr_bytes_inverse:
  "length (hdr_sig h) = 8 \<Longrightarrow> db_hdr_of_bytes (db_hdr_bytes h) = h"
  by (simp add: db_hdr_of_bytes_def db_hdr_bytes_def length_u32_bytes mem_get_u32_bytes)

text \<open>A read that delivers nothing and reports no error leaves the header.\<close>

lemma hdr_after_read_nothing:
  "disk_bytes d = [] \<Longrightarrow> length (hdr_sig (db_hdr p)) = 8 \<Longrightarrow> hdr_after_read d p = db_hdr p"
  by (simp add: hdr_after_read_def store_def db_hdr_bytes_inverse)

subsection \<open>The result of \<open>open\<close>\<close>

lemma pages_open_unreadable:
  assumes "ndebug \<or> \<not> is_valid p" "\<not> hdr_read_ok d"
  shows "\<exists>fe. fe \<noteq> 0 \<and> pages_open ndebug d p = Inr (error_file fe, p)"
proof (cases "open_error d = 0")
  case False
  with assms(1) show ?thesis by (auto simp: pages_open_def file_open_def)
next
  case True
  with assms(2)
  have "\<exists>fe. fe \<noteq> 0 \<and>
      file_read d \<lparr>file_handle = True, file_size = length (disk_bytes d)\<rparr> 24 0 = Inl fe"
    by (auto simp: hdr_read_ok_def file_read_def)
  with True assms(1) show ?thesis by (auto simp: pages_open_def file_open_def)
qed

lemma file_size_check:
  fixes n ps l :: nat
  assumes "0 < ps"
  shows "(n mod ps \<noteq> 0 \<or> n div ps \<noteq> l) = (n \<noteq> l * ps)"
proof
  assume "n mod ps \<noteq> 0 \<or> n div ps \<noteq> l"
  then show "n \<noteq> l * ps" using assms by auto
next
  assume "n \<noteq> l * ps"
  then show "n mod ps \<noteq> 0 \<or> n div ps \<noteq> l"
    using div_mult_mod_eq [of n ps] by auto
qed

lemma pages_open_readable:
  assumes "ndebug \<or> \<not> is_valid p" "hdr_read_ok d"
  shows "pages_open ndebug d p =
     (let h = hdr_after_read d p; p1 = p\<lparr>db_hdr := h\<rparr>
      in if hdr_sig h \<noteq> signature then Inr (error_code errors_bad_file, p1)
         else if hdr_version h \<noteq> 0x000E0208 \<and> hdr_version h \<noteq> 0x00080308
         then Inr (error_code errors_version, p1)
         else
           (let h2 = (if hdr_version h = 0x000E0208 then h\<lparr>hdr_page_size := 4096\<rparr> else h);
                p2 = p\<lparr>db_hdr := h2\<rparr>
            in if \<not> page_size_allowed (hdr_page_size h2)
               then Inr (error_code errors_bad_file, p2)
               else if length (disk_bytes d) mod unat (hdr_page_size h2) \<noteq> 0 \<or>
                       length (disk_bytes d) div unat (hdr_page_size h2) \<noteq> unat (hdr_length h2) \<or>
                       hdr_length h2 = 0
               then Inr (error_code errors_bad_file, p2)
               else Inr (error_none,
                         (cache_init p2 (unat (hdr_page_size h2)))
                           \<lparr>file_iface := \<lparr>file_handle = True,
                                           file_size = length (disk_bytes d)\<rparr>\<rparr>)))"
proof -
  let ?h = "hdr_after_read d p"
  let ?tmp = "\<lparr>file_handle = True, file_size = length (disk_bytes d)\<rparr>"
  have alw: "page_size_allowed 4096" by (simp add: page_size_allowed_def)
  from assms(2) have fo: "file_open d file_init = (0, ?tmp)"
    by (simp add: hdr_read_ok_def file_open_def)
  from assms(2) have rd: "file_read d ?tmp 24 0 = Inr (take 24 (disk_bytes d))"
    by (auto simp: hdr_read_ok_def file_read_def)
  from assms(1) have guard: "(\<not> ndebug \<and> is_valid p) = False" by blast
  note start = pages_open_def guard fo rd hdr_after_read_def [symmetric] Let_def
  show ?thesis
  proof (cases "hdr_sig ?h = signature")
    case False
    then show ?thesis by (simp add: start)
  next
    case sig: True
    consider (old) "hdr_version ?h = 0x000E0208" | (new) "hdr_version ?h = 0x00080308"
      | (bad) "hdr_version ?h \<noteq> 0x000E0208 \<and> hdr_version ?h \<noteq> 0x00080308" by blast
    then show ?thesis
    proof cases
      case bad
      with sig show ?thesis by (simp add: start)
    next
      case old
      from sig old show ?thesis by (simp add: start alw)
    next
      case new
      from sig new show ?thesis by (simp add: start)
    qed
  qed
qed

lemma pages_open_cases:
  assumes "ndebug \<or> \<not> is_valid p"
  obtains
    (unreadable) fe where "\<not> hdr_read_ok d" "fe \<noteq> 0"
      "pages_open ndebug d p = Inr (error_file fe, p)"
  | (bad_sig) "hdr_read_ok d" "hdr_sig (hdr_after_read d p) \<noteq> signature"
      "pages_open ndebug d p = Inr (error_code errors_bad_file, p\<lparr>db_hdr := hdr_after_read d p\<rparr>)"
  | (bad_version) "hdr_read_ok d" "hdr_sig (hdr_after_read d p) = signature"
      "hdr_version (hdr_after_read d p) \<noteq> 0x000E0208" "hdr_version (hdr_after_read d p) \<noteq> 0x00080308"
      "pages_open ndebug d p = Inr (error_code errors_version, p\<lparr>db_hdr := hdr_after_read d p\<rparr>)"
  | (bad_page_size) "hdr_read_ok d" "hdr_sig (hdr_after_read d p) = signature"
      "hdr_version (hdr_after_read d p) = 0x00080308" "\<not> page_size_allowed (hdr_page_size (hdr_after_read d p))"
      "pages_open ndebug d p = Inr (error_code errors_bad_file, p\<lparr>db_hdr := hdr_after_read d p\<rparr>)"
  | (bad_size) h where "hdr_read_ok d" "hdr_sig (hdr_after_read d p) = signature"
      "hdr_version (hdr_after_read d p) = 0x000E0208 \<or> hdr_version (hdr_after_read d p) = 0x00080308"
      "h = (if hdr_version (hdr_after_read d p) = 0x000E0208 then (hdr_after_read d p)\<lparr>hdr_page_size := 4096\<rparr>
            else hdr_after_read d p)"
      "page_size_allowed (hdr_page_size h)"
      "length (disk_bytes d) \<noteq> unat (hdr_length h) * unat (hdr_page_size h) \<or> hdr_length h = 0"
      "pages_open ndebug d p = Inr (error_code errors_bad_file, p\<lparr>db_hdr := h\<rparr>)"
  | (opened) h where "hdr_read_ok d" "hdr_sig (hdr_after_read d p) = signature"
      "hdr_version (hdr_after_read d p) = 0x000E0208 \<or> hdr_version (hdr_after_read d p) = 0x00080308"
      "h = (if hdr_version (hdr_after_read d p) = 0x000E0208 then (hdr_after_read d p)\<lparr>hdr_page_size := 4096\<rparr>
            else hdr_after_read d p)"
      "page_size_allowed (hdr_page_size h)"
      "length (disk_bytes d) = unat (hdr_length h) * unat (hdr_page_size h)" "hdr_length h \<noteq> 0"
      "pages_open ndebug d p =
         Inr (error_none,
              (cache_init (p\<lparr>db_hdr := h\<rparr>) (unat (hdr_page_size h)))
                \<lparr>file_iface := \<lparr>file_handle = True, file_size = length (disk_bytes d)\<rparr>\<rparr>)"
proof (cases "hdr_read_ok d")
  case False
  with pages_open_unreadable [OF assms] unreadable show thesis by blast
next
  case readable: True
  note eq = pages_open_readable [OF assms readable]
  let ?h = "hdr_after_read d p"
  define h where "h = (if hdr_version ?h = 0x000E0208 then ?h\<lparr>hdr_page_size := 4096\<rparr> else ?h)"
  have sig_h: "hdr_version h = hdr_version ?h" by (simp add: h_def)
  show thesis
  proof (cases "hdr_sig ?h = signature")
    case False
    with eq have "pages_open ndebug d p = Inr (error_code errors_bad_file, p\<lparr>db_hdr := ?h\<rparr>)"
      by (simp add: Let_def)
    with readable False show thesis by (rule bad_sig)
  next
    case sig: True
    show thesis
    proof (cases "hdr_version ?h = 0x000E0208 \<or> hdr_version ?h = 0x00080308")
      case False
      with eq sig have "pages_open ndebug d p = Inr (error_code errors_version, p\<lparr>db_hdr := ?h\<rparr>)"
        by (simp add: Let_def)
      with readable sig False show thesis by (intro bad_version) simp_all
    next
      case ver: True
      show thesis
      proof (cases "page_size_allowed (hdr_page_size h)")
        case False
        then have new: "hdr_version ?h = 0x00080308" "h = ?h"
          using ver by (auto simp: h_def page_size_allowed_def split: if_splits)
        with eq sig False
        have "pages_open ndebug d p = Inr (error_code errors_bad_file, p\<lparr>db_hdr := ?h\<rparr>)"
          by (simp add: Let_def)
        with readable sig new False show thesis by (intro bad_page_size) simp_all
      next
        case allowed: True
        note chk = file_size_check [OF page_size_allowed_pos [OF allowed],
            of "length (disk_bytes d)" "unat (hdr_length h)"]
        show thesis
        proof (cases "length (disk_bytes d) \<noteq> unat (hdr_length h) * unat (hdr_page_size h) \<or>
            hdr_length h = 0")
          case True
          with chk have "length (disk_bytes d) mod unat (hdr_page_size h) \<noteq> 0 \<or>
              length (disk_bytes d) div unat (hdr_page_size h) \<noteq> unat (hdr_length h) \<or>
              hdr_length h = 0" by blast
          with eq sig ver allowed
          have "pages_open ndebug d p = Inr (error_code errors_bad_file, p\<lparr>db_hdr := h\<rparr>)"
            unfolding Let_def h_def [symmetric] by (auto simp: sig_h)
          with readable sig ver allowed True h_def show thesis by (intro bad_size [of h]) simp_all
        next
          case False
          with chk have "\<not> (length (disk_bytes d) mod unat (hdr_page_size h) \<noteq> 0 \<or>
              length (disk_bytes d) div unat (hdr_page_size h) \<noteq> unat (hdr_length h) \<or>
              hdr_length h = 0)" by blast
          with eq sig ver allowed
          have "pages_open ndebug d p =
              Inr (error_none,
                (cache_init (p\<lparr>db_hdr := h\<rparr>) (unat (hdr_page_size h)))
                  \<lparr>file_iface := \<lparr>file_handle = True, file_size = length (disk_bytes d)\<rparr>\<rparr>)"
            unfolding Let_def h_def [symmetric] by (auto simp: sig_h)
          with readable sig ver allowed False h_def show thesis by (intro opened [of h]) simp_all
        qed
      qed
    qed
  qed
qed

lemma pages_open_not_thrown: "pages_open ndebug d p \<noteq> Inl (Thrown msg)"
proof (cases "ndebug \<or> \<not> is_valid p")
  case True
  then show ?thesis by (cases rule: pages_open_cases [where d = d]) simp_all
next
  case False
  then show ?thesis by (simp add: pages_open_def)
qed

text \<open>
  C5 (as amended). \<open>open\<close> never ends in an exception of the library. Called as its assert
  asks (on an object that is not open, or with asserts compiled out) it returns an error
  value \<open>e\<close> and leaves an object \<open>p'\<close>, deciding in the order of the source:
  \<^item> \<open>e\<close> is \<open>file_system\<close> exactly when the file cannot be opened or the read of the 24
    bytes of the header reports an error; a read of fewer than 24 bytes reports the last
    error of the thread, and counts as read when that is 0.
  In the other clauses the read is one that counts, and the header is the one that stands
  after it (the bytes read, laid over the header of before).
  \<^item> \<open>e\<close> is \<open>bad_file\<close> when the signature is not \<open>"1CDBMSV8"\<close>;
  \<^item> \<open>e\<close> is \<open>version\<close> exactly when the signature is \<open>"1CDBMSV8"\<close> and the version is neither
    \<open>0x000E0208\<close> nor \<open>0x00080308\<close>;
  \<^item> with the signature and version \<open>0x000E0208\<close>, the page size of \<open>p'\<close> is 4096, whatever the
    header says;
  \<^item> with the signature and version \<open>0x00080308\<close> and a page size that is none of 4096, 8192,
    16384, 32768, 65536, \<open>e\<close> is \<open>bad_file\<close>;
  \<^item> with the signature and one of the two versions, \<open>e\<close> is \<open>bad_file\<close> when the file size
    is not \<open>length * page_size\<close> (of the header of \<open>p'\<close>) or \<open>length = 0\<close>;
  \<^item> \<open>e\<close> is \<open>none\<close> exactly when all these checks pass.
\<close>

theorem pages_open_typed_errors:
  "(\<forall>msg. pages_open ndebug d p \<noteq> Inl (Thrown msg)) \<and>
   (ndebug \<or> \<not> is_valid p \<longrightarrow>
      (\<exists>e p'. pages_open ndebug d p = Inr (e, p') \<and>
         (mycode e = errors_file_system \<longleftrightarrow> \<not> hdr_read_ok d) \<and>
         (hdr_read_ok d \<and> hdr_sig (hdr_after_read d p) \<noteq> signature \<longrightarrow>
            mycode e = errors_bad_file) \<and>
         (mycode e = errors_version \<longleftrightarrow>
            hdr_read_ok d \<and> hdr_sig (hdr_after_read d p) = signature \<and>
            hdr_version (hdr_after_read d p) \<noteq> 0x000E0208 \<and> hdr_version (hdr_after_read d p) \<noteq> 0x00080308) \<and>
         (hdr_read_ok d \<and> hdr_sig (hdr_after_read d p) = signature \<and>
          hdr_version (hdr_after_read d p) = 0x000E0208 \<longrightarrow>
            hdr_page_size (db_hdr p') = 4096) \<and>
         (hdr_read_ok d \<and> hdr_sig (hdr_after_read d p) = signature \<and>
          hdr_version (hdr_after_read d p) = 0x00080308 \<and>
          hdr_page_size (hdr_after_read d p) \<notin> {4096, 8192, 16384, 32768, 65536} \<longrightarrow>
            mycode e = errors_bad_file) \<and>
         (hdr_read_ok d \<and> hdr_sig (hdr_after_read d p) = signature \<and>
          (hdr_version (hdr_after_read d p) = 0x000E0208 \<or> hdr_version (hdr_after_read d p) = 0x00080308) \<and>
          (length (disk_bytes d) \<noteq>
             unat (hdr_length (db_hdr p')) * unat (hdr_page_size (db_hdr p')) \<or>
           hdr_length (db_hdr p') = 0) \<longrightarrow>
            mycode e = errors_bad_file) \<and>
         (mycode e = errors_none \<longleftrightarrow>
            hdr_read_ok d \<and> hdr_sig (hdr_after_read d p) = signature \<and>
            (hdr_version (hdr_after_read d p) = 0x000E0208 \<or> hdr_version (hdr_after_read d p) = 0x00080308) \<and>
            hdr_page_size (db_hdr p') \<in> {4096, 8192, 16384, 32768, 65536} \<and>
            length (disk_bytes d) =
              unat (hdr_length (db_hdr p')) * unat (hdr_page_size (db_hdr p')) \<and>
            hdr_length (db_hdr p') \<noteq> 0)))"
proof (intro conjI impI allI)
  fix msg show "pages_open ndebug d p \<noteq> Inl (Thrown msg)" by (rule pages_open_not_thrown)
next
  assume "ndebug \<or> \<not> is_valid p"
  then show "\<exists>e p'. pages_open ndebug d p = Inr (e, p') \<and>
         (mycode e = errors_file_system \<longleftrightarrow> \<not> hdr_read_ok d) \<and>
         (hdr_read_ok d \<and> hdr_sig (hdr_after_read d p) \<noteq> signature \<longrightarrow>
            mycode e = errors_bad_file) \<and>
         (mycode e = errors_version \<longleftrightarrow>
            hdr_read_ok d \<and> hdr_sig (hdr_after_read d p) = signature \<and>
            hdr_version (hdr_after_read d p) \<noteq> 0x000E0208 \<and> hdr_version (hdr_after_read d p) \<noteq> 0x00080308) \<and>
         (hdr_read_ok d \<and> hdr_sig (hdr_after_read d p) = signature \<and>
          hdr_version (hdr_after_read d p) = 0x000E0208 \<longrightarrow>
            hdr_page_size (db_hdr p') = 4096) \<and>
         (hdr_read_ok d \<and> hdr_sig (hdr_after_read d p) = signature \<and>
          hdr_version (hdr_after_read d p) = 0x00080308 \<and>
          hdr_page_size (hdr_after_read d p) \<notin> {4096, 8192, 16384, 32768, 65536} \<longrightarrow>
            mycode e = errors_bad_file) \<and>
         (hdr_read_ok d \<and> hdr_sig (hdr_after_read d p) = signature \<and>
          (hdr_version (hdr_after_read d p) = 0x000E0208 \<or> hdr_version (hdr_after_read d p) = 0x00080308) \<and>
          (length (disk_bytes d) \<noteq>
             unat (hdr_length (db_hdr p')) * unat (hdr_page_size (db_hdr p')) \<or>
           hdr_length (db_hdr p') = 0) \<longrightarrow>
            mycode e = errors_bad_file) \<and>
         (mycode e = errors_none \<longleftrightarrow>
            hdr_read_ok d \<and> hdr_sig (hdr_after_read d p) = signature \<and>
            (hdr_version (hdr_after_read d p) = 0x000E0208 \<or> hdr_version (hdr_after_read d p) = 0x00080308) \<and>
            hdr_page_size (db_hdr p') \<in> {4096, 8192, 16384, 32768, 65536} \<and>
            length (disk_bytes d) =
              unat (hdr_length (db_hdr p')) * unat (hdr_page_size (db_hdr p')) \<and>
            hdr_length (db_hdr p') \<noteq> 0)"
  proof (cases rule: pages_open_cases [where d = d])
    case (unreadable fe)
    then show ?thesis by (simp add: error_file_def)
  next
    case bad_sig
    then show ?thesis by (simp add: error_code_def)
  next
    case bad_version
    then show ?thesis by (simp add: error_code_def)
  next
    case bad_page_size
    then show ?thesis by (simp add: error_code_def page_size_allowed_def)
  next
    case (bad_size h)
    from bad_size(5) have "hdr_page_size h \<in> {4096, 8192, 16384, 32768, 65536}"
      by (simp add: page_size_allowed_def)
    moreover from bad_size(3,4)
    have "hdr_version (hdr_after_read d p) = 0x000E0208 \<longrightarrow> hdr_page_size h = 4096"
      by simp
    ultimately show ?thesis using bad_size(1,2,3,6,7)
      by (simp add: error_code_def)
  next
    case (opened h)
    from opened(5) have "hdr_page_size h \<in> {4096, 8192, 16384, 32768, 65536}"
      by (simp add: page_size_allowed_def)
    moreover from opened(3,4)
    have "hdr_version (hdr_after_read d p) = 0x000E0208 \<longrightarrow> hdr_page_size h = 4096"
      by simp
    moreover from opened(3,4,5) have "hdr_version (hdr_after_read d p) = 0x00080308 \<longrightarrow>
        hdr_page_size (hdr_after_read d p) \<in> {4096, 8192, 16384, 32768, 65536}"
      by (auto simp: page_size_allowed_def split: if_splits)
    ultimately show ?thesis using opened(1,2,3,6,7,8)
      by (simp add: error_none_def cache_init_def)
  qed
qed

lemma hdr_after_read_full:
  "24 \<le> length (disk_bytes d) \<Longrightarrow> hdr_after_read d p = disk_hdr d"
  by (simp add: hdr_after_read_def disk_hdr_def db_hdr_of_bytes_store)

lemma example_disks_readable:
  "hdr_read_ok disk_bad_version" "hdr_read_ok disk_bad_page_size" "hdr_read_ok disk_8214"
  "hdr_read_ok disk_truncated" "hdr_read_ok disk_2_pages" "hdr_read_ok disk_short"
  "hdr_read_ok disk_empty" "\<not> hdr_read_ok disk_short_stale"
  by (simp_all add: hdr_read_ok_def disk_bad_version_def disk_bad_page_size_def disk_8214_def
      disk_truncated_def disk_2_pages_def disk_short_def disk_empty_def disk_short_stale_def
      signature_def)

lemma example_disks_hdr:
  "disk_hdr disk_bad_version =
     \<lparr>hdr_sig = signature, hdr_version = 0, hdr_length = 1, hdr_unknown = 0, hdr_page_size = 4096\<rparr>"
  "disk_hdr disk_bad_page_size =
     \<lparr>hdr_sig = signature, hdr_version = 0x00080308, hdr_length = 1, hdr_unknown = 0,
      hdr_page_size = 5000\<rparr>"
  "disk_hdr disk_8214 =
     \<lparr>hdr_sig = signature, hdr_version = 0x000E0208, hdr_length = 1, hdr_unknown = 0,
      hdr_page_size = 0\<rparr>"
  "disk_hdr disk_truncated = hdr_838"
  "disk_hdr disk_2_pages = hdr_838"
  by (simp_all add: disk_hdr_def db_hdr_of_bytes_def disk_bad_version_def disk_bad_page_size_def
      disk_8214_def disk_truncated_def disk_2_pages_def signature_def hdr_838_def)

lemma example_disks_length:
  "length (disk_bytes disk_8214) = 4096" "length (disk_bytes disk_truncated) = 4096"
  "length (disk_bytes disk_bad_version) = 24" "length (disk_bytes disk_bad_page_size) = 5000"
  by (simp_all add: disk_8214_def disk_truncated_def disk_bad_version_def
      disk_bad_page_size_def signature_def)

lemma example_disks_after_read:
  "hdr_after_read disk_bad_version p = disk_hdr disk_bad_version"
  "hdr_after_read disk_bad_page_size p = disk_hdr disk_bad_page_size"
  "hdr_after_read disk_8214 p = disk_hdr disk_8214"
  "hdr_after_read disk_truncated p = hdr_838"
  by (simp_all add: hdr_after_read_full example_disks_length example_disks_hdr [symmetric])

lemma db_hdr_zero_bytes:
  "db_hdr_bytes db_hdr_zero =
     [0, 0, 0, 0, 0, 0, 0, 0, 0, 0, 0, 0, 0, 0, 0, 0, 0, 0, 0, 0, 0, 0, 0, 0]"
proof -
  have "replicate 8 (0 :: byte) = [0, 0, 0, 0, 0, 0, 0, 0]"
    by (simp add: numeral_eq_Suc)
  then show ?thesis by (simp add: db_hdr_bytes_def db_hdr_zero_def u32_bytes_def)
qed

lemma short_disks_after_read:
  "hdr_after_read disk_short (pages_init N) =
     \<lparr>hdr_sig = signature, hdr_version = 0x0308, hdr_length = 0, hdr_unknown = 0,
      hdr_page_size = 0\<rparr>"
  "hdr_after_read disk_empty (pages_init N) = db_hdr_zero"
proof -
  have z: "db_hdr (pages_init N) = db_hdr_zero" by (simp add: pages_init_def)
  show "hdr_after_read disk_short (pages_init N) =
     \<lparr>hdr_sig = signature, hdr_version = 0x0308, hdr_length = 0, hdr_unknown = 0,
      hdr_page_size = 0\<rparr>"
    unfolding hdr_after_read_def z db_hdr_zero_bytes
    by (simp add: store_def db_hdr_of_bytes_def disk_short_def signature_def)
  have "replicate 8 (0 :: byte) = [0, 0, 0, 0, 0, 0, 0, 0]"
    by (simp add: numeral_eq_Suc)
  then show "hdr_after_read disk_empty (pages_init N) = db_hdr_zero"
    unfolding hdr_after_read_def z db_hdr_zero_bytes
    by (simp add: store_def db_hdr_of_bytes_def disk_empty_def db_hdr_zero_def)
qed

lemma pages_init_not_valid: "\<not> is_valid (pages_init N)"
  by (simp add: is_valid_def pages_init_def)

lemma pages_open_truncated:
  "pages_open False disk_truncated (pages_init 8) =
     Inr (error_code errors_bad_file, (pages_init 8)\<lparr>db_hdr := hdr_838\<rparr>)"
  using pages_init_not_valid [of 8]
  by (simp add: pages_open_readable example_disks_readable example_disks_after_read
      example_disks_length hdr_838_def page_size_allowed_def)

theorem pages_open_typed_errors_witness:
  "\<not> is_valid (pages_init 8) \<and>
   \<not> hdr_read_ok disk_short_stale \<and>
   (\<exists>e p'. pages_open False disk_short_stale (pages_init 8) = Inr (e, p') \<and>
      mycode e = errors_file_system) \<and>
   hdr_read_ok disk_empty \<and> hdr_sig (hdr_after_read disk_empty (pages_init 8)) \<noteq> signature \<and>
   (\<exists>e p'. pages_open False disk_empty (pages_init 8) = Inr (e, p') \<and>
      mycode e = errors_bad_file) \<and>
   hdr_read_ok disk_short \<and> hdr_sig (hdr_after_read disk_short (pages_init 8)) = signature \<and>
   hdr_version (hdr_after_read disk_short (pages_init 8)) = 0x0308 \<and>
   (\<exists>e p'. pages_open False disk_short (pages_init 8) = Inr (e, p') \<and>
      mycode e = errors_version) \<and>
   hdr_read_ok disk_8214 \<and> hdr_sig (hdr_after_read disk_8214 (pages_init 8)) = signature \<and>
   hdr_version (hdr_after_read disk_8214 (pages_init 8)) = 0x000E0208 \<and>
   hdr_page_size (hdr_after_read disk_8214 (pages_init 8)) = 0 \<and>
   (\<exists>e p'. pages_open False disk_8214 (pages_init 8) = Inr (e, p') \<and>
      hdr_page_size (db_hdr p') = 4096) \<and>
   hdr_read_ok disk_bad_page_size \<and>
   hdr_sig (hdr_after_read disk_bad_page_size (pages_init 8)) = signature \<and>
   hdr_version (hdr_after_read disk_bad_page_size (pages_init 8)) = 0x00080308 \<and>
   hdr_page_size (hdr_after_read disk_bad_page_size (pages_init 8)) = 5000 \<and>
   (\<exists>e p'. pages_open False disk_bad_page_size (pages_init 8) = Inr (e, p') \<and>
      mycode e = errors_bad_file) \<and>
   hdr_read_ok disk_truncated \<and>
   hdr_sig (hdr_after_read disk_truncated (pages_init 8)) = signature \<and>
   hdr_version (hdr_after_read disk_truncated (pages_init 8)) = 0x00080308 \<and>
   length (disk_bytes disk_truncated) \<noteq> unat (hdr_length hdr_838) * unat (hdr_page_size hdr_838) \<and>
   (\<exists>e. pages_open False disk_truncated (pages_init 8) =
          Inr (e, (pages_init 8)\<lparr>db_hdr := hdr_838\<rparr>) \<and>
      mycode e = errors_bad_file)"
proof -
  note nv = pages_init_not_valid [of 8]
  note r = example_disks_readable
    and h = example_disks_after_read example_disks_hdr short_disks_after_read
  note T = pages_open_typed_errors [THEN conjunct2, THEN mp, OF disjI2, OF nv]
  have s: "\<not> hdr_read_ok disk_short_stale" by (simp add: r)
  have "hdr_sig db_hdr_zero ! 0 \<noteq> signature ! 0"
    by (simp add: db_hdr_zero_def signature_def)
  then have "hdr_sig db_hdr_zero \<noteq> signature" by auto
  then have e: "hdr_read_ok disk_empty \<and>
      hdr_sig (hdr_after_read disk_empty (pages_init 8)) \<noteq> signature"
    by (simp add: h r)
  have v: "hdr_read_ok disk_short \<and>
      hdr_sig (hdr_after_read disk_short (pages_init 8)) = signature \<and>
      hdr_version (hdr_after_read disk_short (pages_init 8)) \<noteq> 0x000E0208 \<and>
      hdr_version (hdr_after_read disk_short (pages_init 8)) \<noteq> 0x00080308"
    by (simp add: h r)
  have v': "hdr_version (hdr_after_read disk_short (pages_init 8)) = 0x0308" by (simp add: h)
  have o: "hdr_read_ok disk_8214 \<and>
      hdr_sig (hdr_after_read disk_8214 (pages_init 8)) = signature \<and>
      hdr_version (hdr_after_read disk_8214 (pages_init 8)) = 0x000E0208"
    by (simp add: h r)
  have o': "hdr_page_size (hdr_after_read disk_8214 (pages_init 8)) = 0" by (simp add: h)
  have b: "hdr_read_ok disk_bad_page_size \<and>
      hdr_sig (hdr_after_read disk_bad_page_size (pages_init 8)) = signature \<and>
      hdr_version (hdr_after_read disk_bad_page_size (pages_init 8)) = 0x00080308 \<and>
      hdr_page_size (hdr_after_read disk_bad_page_size (pages_init 8)) \<notin>
        {4096, 8192, 16384, 32768, 65536}"
    by (simp add: h r)
  have b': "hdr_page_size (hdr_after_read disk_bad_page_size (pages_init 8)) = 5000"
    by (simp add: h)
  have t: "hdr_read_ok disk_truncated \<and>
      hdr_sig (hdr_after_read disk_truncated (pages_init 8)) = signature \<and>
      hdr_version (hdr_after_read disk_truncated (pages_init 8)) = 0x00080308"
    by (simp add: h r hdr_838_def)
  have len: "length (disk_bytes disk_truncated) \<noteq>
      unat (hdr_length hdr_838) * unat (hdr_page_size hdr_838)"
    by (simp add: example_disks_length hdr_838_def)
  from T [of False disk_short_stale] s
  have 0: "\<exists>e p'. pages_open False disk_short_stale (pages_init 8) = Inr (e, p') \<and>
      mycode e = errors_file_system" by (elim exE conjE) blast
  from T [of False disk_empty] e
  have 5: "\<exists>e p'. pages_open False disk_empty (pages_init 8) = Inr (e, p') \<and>
      mycode e = errors_bad_file" by (elim exE conjE) blast
  from T [of False disk_short] v
  have 1: "\<exists>e p'. pages_open False disk_short (pages_init 8) = Inr (e, p') \<and>
      mycode e = errors_version" by (elim exE conjE) blast
  from T [of False disk_8214] o
  have 2: "\<exists>e p'. pages_open False disk_8214 (pages_init 8) = Inr (e, p') \<and>
      hdr_page_size (db_hdr p') = 4096" by (elim exE conjE) blast
  from T [of False disk_bad_page_size] b
  have 3: "\<exists>e p'. pages_open False disk_bad_page_size (pages_init 8) = Inr (e, p') \<and>
      mycode e = errors_bad_file" by (elim exE conjE) blast
  from T [of False disk_truncated] obtain e p' where
    f: "pages_open False disk_truncated (pages_init 8) = Inr (e, p')"
    and g: "hdr_read_ok disk_truncated \<and>
          hdr_sig (hdr_after_read disk_truncated (pages_init 8)) = signature \<and>
          (hdr_version (hdr_after_read disk_truncated (pages_init 8)) = 0x000E0208 \<or>
           hdr_version (hdr_after_read disk_truncated (pages_init 8)) = 0x00080308) \<and>
          (length (disk_bytes disk_truncated) \<noteq>
             unat (hdr_length (db_hdr p')) * unat (hdr_page_size (db_hdr p')) \<or>
           hdr_length (db_hdr p') = 0) \<longrightarrow>
            mycode e = errors_bad_file"
    by (elim exE conjE)
  from f have p': "p' = (pages_init 8)\<lparr>db_hdr := hdr_838\<rparr>"
    by (simp add: pages_open_truncated)
  then have "db_hdr p' = hdr_838" by simp
  with g t len have "mycode e = errors_bad_file" by simp
  with f p' have 4: "\<exists>e. pages_open False disk_truncated (pages_init 8) =
          Inr (e, (pages_init 8)\<lparr>db_hdr := hdr_838\<rparr>) \<and> mycode e = errors_bad_file"
    by blast
  from nv s e v v' o o' b b' t len 0 1 2 3 4 5 show ?thesis by (intro conjI) simp_all
qed

text \<open>
  C5 (as stated) fails on the file \<open>disk_bad_version\<close>: its 24 bytes are not the
  \<open>length * page_size = 1 * 4096\<close> of its header, and \<open>open\<close> returns \<open>version\<close>, not
  \<open>bad_file\<close>, because the version is tested before the size.
\<close>

theorem pages_open_size_counterexample:
  "length (disk_bytes disk_bad_version) = 24 \<and>
   hdr_length (disk_hdr disk_bad_version) = 1 \<and>
   hdr_page_size (disk_hdr disk_bad_version) = 4096 \<and>
   pages_open False disk_bad_version (pages_init 8) =
     Inr (error_code errors_version, (pages_init 8)\<lparr>db_hdr := disk_hdr disk_bad_version\<rparr>) \<and>
   mycode (error_code errors_version) \<noteq> errors_bad_file"
  using pages_init_not_valid [of 8]
  by (simp add: pages_open_readable example_disks_readable example_disks_after_read
      example_disks_length example_disks_hdr error_code_def)

subsection \<open>The record stride\<close>

lemma unat_size_t_add:
  fixes a b :: size_t
  shows "unat a + unat b < 2 ^ 64 \<Longrightarrow> unat (a + b) = unat a + unat b"
  using unat_add_lem [of a b] by simp

lemma unat_size_t_double:
  fixes a :: size_t
  assumes "unat a * 2 < 2 ^ 64"
  shows "unat (a * 2) = unat a * 2"
proof -
  from assms have "unat a * unat (2 :: size_t) < 2 ^ LENGTH(64)" by simp
  then show ?thesis using unat_mult_lem [of a 2] by simp
qed

lemma unat_size_t_half:
  fixes a :: size_t
  assumes "unat a + 2 < 2 ^ 64"
  shows "unat ((a + 2) div 2) = (unat a + 2) div 2"
proof -
  from assms have "unat a + unat (2 :: size_t) < 2 ^ 64" by simp
  from unat_size_t_add [OF this] show ?thesis by (simp add: unat_div)
qed

lemma field_size_nat:
  assumes "fparams_type prm \<noteq> ftype_unknown"
    and "fparams_type prm = ftype_digit \<longrightarrow> unat (fparams_length prm) + 2 < 2 ^ 64"
    and "column_width prm < 2 ^ 64"
  shows "\<exists>sz. field_size prm = Inr sz \<and> unat sz = column_width prm"
proof -
  let ?len = "fparams_length prm"
  let ?flag = "(if null_exists prm then 1 else 0) :: size_t"
  let ?f = "(if null_exists prm then 1 else 0) :: nat"
  have flag: "unat ?flag = ?f" by simp
  have add: "unat (?flag + w) = ?f + unat w" if "?f + unat w < 2 ^ 64" for w
    using that unat_size_t_add [of ?flag w] by (simp split: if_splits)
  note cw = assms(3) [unfolded column_width_def slot_width_def]
  show ?thesis
  proof (cases "fparams_type prm")
    case ftype_unknown
    with assms(1) show ?thesis by simp
  next
    case ftype_binary
    with cw have "?f + unat ?len < 2 ^ 64" by simp
    from add [OF this] ftype_binary show ?thesis
      by (simp add: field_size_def column_width_def slot_width_def binary_size_def)
  next
    case ftype_boolean
    have "?f + unat (1 :: size_t) < 2 ^ 64" by simp
    from add [OF this] ftype_boolean show ?thesis
      by (simp add: field_size_def column_width_def slot_width_def boolean_size_def)
  next
    case ftype_digit
    with assms(2) have "unat ?len + 2 < 2 ^ 64" by simp
    from unat_size_t_half [OF this]
    have half: "unat ((?len + 2) div 2) = (unat ?len + 2) div 2" .
    with cw ftype_digit have "?f + unat ((?len + 2) div 2) < 2 ^ 64" by simp
    from add [OF this] half ftype_digit show ?thesis
      by (simp add: field_size_def column_width_def slot_width_def digit_size_def)
  next
    case ftype_str_fix
    with cw have "unat ?len * 2 < 2 ^ 64" by (simp split: if_splits)
    from unat_size_t_double [OF this] have dbl: "unat (?len * 2) = unat ?len * 2" .
    with cw ftype_str_fix have "?f + unat (?len * 2) < 2 ^ 64" by simp
    from add [OF this] dbl ftype_str_fix show ?thesis
      by (simp add: field_size_def column_width_def slot_width_def str_fix_size_def)
  next
    case ftype_str_var
    with cw have small: "?f + (unat ?len * 2 + 2) < 2 ^ 64" by simp
    then have "unat ?len * 2 < 2 ^ 64" by (simp split: if_splits)
    from unat_size_t_double [OF this] have dbl: "unat (?len * 2) = unat ?len * 2" .
    with small have "unat (?len * 2) + unat (2 :: size_t) < 2 ^ 64" by (simp split: if_splits)
    from unat_size_t_add [OF this] dbl
    have var: "unat (?len * 2 + 2) = unat ?len * 2 + 2" by simp
    with small have "?f + unat (?len * 2 + 2) < 2 ^ 64" by simp
    from add [OF this] var ftype_str_var show ?thesis
      by (simp add: field_size_def column_width_def slot_width_def str_var_size_def)
  next
    case ftype_version
    have "?f + unat (16 :: size_t) < 2 ^ 64" by simp
    from add [OF this] ftype_version show ?thesis
      by (simp add: field_size_def column_width_def slot_width_def version_size_def)
  next
    case ftype_str_blob
    have "?f + unat (8 :: size_t) < 2 ^ 64" by simp
    from add [OF this] ftype_str_blob show ?thesis
      by (simp add: field_size_def column_width_def slot_width_def str_blob_size_def)
  next
    case ftype_bin_blob
    have "?f + unat (8 :: size_t) < 2 ^ 64" by simp
    from add [OF this] ftype_bin_blob show ?thesis
      by (simp add: field_size_def column_width_def slot_width_def bin_blob_size_def)
  next
    case ftype_datetime
    have "?f + unat (7 :: size_t) < 2 ^ 64" by simp
    from add [OF this] ftype_datetime show ?thesis
      by (simp add: field_size_def column_width_def slot_width_def datetime_size_def)
  qed
qed

lemma prepare_loop_nat:
  assumes "\<forall>prm \<in> set params. fparams_type prm \<noteq> ftype_unknown"
    and "\<forall>prm \<in> set params.
           fparams_type prm = ftype_digit \<longrightarrow> unat (fparams_length prm) + 2 < 2 ^ 64"
    and "unat shift + (\<Sum>prm\<leftarrow>params. column_width prm) < 2 ^ 64"
  shows "\<exists>s flds' indexes'. prepare_loop params index shift flds indexes = Inr (s, flds', indexes') \<and>
           unat s = unat shift + (\<Sum>prm\<leftarrow>params. column_width prm)"
  using assms
proof (induction params arbitrary: index shift flds indexes)
  case Nil
  show ?case by simp
next
  case (Cons prm params)
  from Cons.prems have ty: "fparams_type prm \<noteq> ftype_unknown"
    and dg: "fparams_type prm = ftype_digit \<longrightarrow> unat (fparams_length prm) + 2 < 2 ^ 64"
    and small: "column_width prm < 2 ^ 64" by simp_all
  from field_size_nat [OF ty dg small] obtain sz where
    sz: "field_size prm = Inr sz" "unat sz = column_width prm" by blast
  from sz(2) Cons.prems(3)
  have "unat shift + unat sz < 2 ^ 64" by simp
  then have sum: "unat (shift + sz) = unat shift + column_width prm"
    using unat_size_t_add [of shift sz] sz(2) by simp
  from Cons.prems(3)
  have 3: "unat (shift + sz) + (\<Sum>prm\<leftarrow>params. column_width prm) < 2 ^ 64"
    by (simp add: sum)
  from Cons.prems(1) have 1: "\<forall>prm \<in> set params. fparams_type prm \<noteq> ftype_unknown" by simp
  from Cons.prems(2) have 2: "\<forall>prm \<in> set params.
      fparams_type prm = ftype_digit \<longrightarrow> unat (fparams_length prm) + 2 < 2 ^ 64" by simp
  from Cons.IH [OF 1 2 3] obtain s flds' indexes' where
    "prepare_loop params (index + 1) (shift + sz)
       (flds @ [\<lparr>helper_params = prm, helper_shift = shift, helper_size = sz\<rparr>])
       (indexes(fparams_name prm \<mapsto> index)) = Inr (s, flds', indexes')"
    "unat s = unat (shift + sz) + (\<Sum>prm\<leftarrow>params. column_width prm)"
    by blast
  with sz(1) sum show ?case by simp
qed

text \<open>
  C4 (as amended). For a schema of at most \<open>2^32 - 1\<close> columns, none of type \<open>unknown\<close>,
  in which no size overflows \<open>size_t\<close> (\<open>length + 2 < 2^64\<close> for every digit column, the
  one intermediate value that can exceed a width, and \<open>1 + \<Sum> column_width < 2^64\<close>),
  \<open>prepare_fields\<close> returns the stride \<open>max (1 + 4) (1 + \<Sum> column_width)\<close>: one tombstone
  byte, and for each column one byte when it is nullable plus the slot width of its type,
  which for a digit column of length \<open>n\<close> is \<open>(n + 2) div 2\<close>, rounded down.
\<close>

theorem prepare_fields_stride:
  assumes "length params \<le> 2 ^ 32 - 1"
    and "\<forall>prm \<in> set params. fparams_type prm \<noteq> ftype_unknown"
    and "\<forall>prm \<in> set params.
           fparams_type prm = ftype_digit \<longrightarrow> unat (fparams_length prm) + 2 < 2 ^ 64"
    and "1 + (\<Sum>prm\<leftarrow>params. column_width prm) < 2 ^ 64"
  shows "\<exists>s. rec_size params = Inr s \<and>
           unat s = max (1 + 4) (1 + (\<Sum>prm\<leftarrow>params. column_width prm))"
proof -
  from assms(4) have "unat (1 :: size_t) + (\<Sum>prm\<leftarrow>params. column_width prm) < 2 ^ 64"
    by simp
  from prepare_loop_nat [OF assms(2,3) this, of 0 "[]" Map.empty] obtain s flds indexes where
    loop: "prepare_loop params 0 1 [] Map.empty = Inr (s, flds, indexes)"
    and s: "unat s = 1 + (\<Sum>prm\<leftarrow>params. column_width prm)" by auto
  let ?r = "if s < 1 + 4 then 1 + 4 else s"
  from assms(1) loop have "rec_size params = Inr ?r"
    by (simp add: rec_size_def prepare_fields_def)
  moreover have "unat ?r = max (1 + 4) (unat s)"
    by (simp add: word_less_nat_alt max_def)
  ultimately show ?thesis using s by auto
qed

lemma digit_9_stride: "rec_size [digit_9] = Inr 6"
  by (simp add: rec_size_def prepare_fields_def field_size_def digit_9_def digit_size_def
      word_div_def)

lemma example_column_widths:
  "column_width digit_9 = 5" "column_width binary_huge = 2 ^ 63"
  by (simp_all add: column_width_def slot_width_def digit_9_def binary_huge_def)

theorem prepare_fields_stride_witness:
  "length [digit_9] \<le> 2 ^ 32 - 1 \<and> fparams_type digit_9 = ftype_digit \<and>
   unat (fparams_length digit_9) + 2 < (2::nat) ^ 64 \<and>
   1 + column_width digit_9 < (2::nat) ^ 64 \<and>
   rec_size [digit_9] = Inr 6 \<and> max (1 + 4) (1 + column_width digit_9) = 6 \<and>
   fparams_type binary_huge = ftype_binary \<and> 1 + column_width binary_huge < (2::nat) ^ 64 \<and>
   (\<exists>s. rec_size [binary_huge] = Inr s \<and> unat s = 2 ^ 63 + 1)"
proof -
  have a: "length [digit_9] \<le> 2 ^ 32 - 1" "length [binary_huge] \<le> 2 ^ 32 - 1" by simp_all
  have b: "\<forall>prm \<in> set [digit_9]. fparams_type prm \<noteq> ftype_unknown"
    "\<forall>prm \<in> set [binary_huge]. fparams_type prm \<noteq> ftype_unknown"
    and b': "fparams_type digit_9 = ftype_digit" "fparams_type binary_huge = ftype_binary"
    by (simp_all add: digit_9_def binary_huge_def)
  have c: "\<forall>prm \<in> set [digit_9].
      fparams_type prm = ftype_digit \<longrightarrow> unat (fparams_length prm) + 2 < 2 ^ 64"
    "\<forall>prm \<in> set [binary_huge].
      fparams_type prm = ftype_digit \<longrightarrow> unat (fparams_length prm) + 2 < 2 ^ 64"
    and c': "unat (fparams_length digit_9) + 2 < (2::nat) ^ 64"
    by (simp_all add: digit_9_def binary_huge_def)
  have d: "1 + (\<Sum>prm\<leftarrow>[digit_9]. column_width prm) < 2 ^ 64"
    "1 + (\<Sum>prm\<leftarrow>[binary_huge]. column_width prm) < 2 ^ 64"
    and d': "1 + column_width digit_9 < (2::nat) ^ 64"
    "1 + column_width binary_huge < (2::nat) ^ 64"
    by (simp_all add: example_column_widths)
  from prepare_fields_stride [OF a(1) b(1) c(1) d(1)] digit_9_stride
  have 1: "max (1 + 4) (1 + column_width digit_9) = 6" by simp
  from prepare_fields_stride [OF a(2) b(2) c(2) d(2)]
  have 2: "\<exists>s. rec_size [binary_huge] = Inr s \<and> unat s = 2 ^ 63 + 1"
    by (simp add: example_column_widths)
  from a b' c' d' digit_9_stride 1 2 show ?thesis by simp
qed

theorem stride_digit_ceiling_counterexample:
  "rec_size [digit_9] = Inr 6 \<and> spec_stride [digit_9] = 7 \<and>
   digit_size 9 = 5 \<and> spec_slot_width ftype_digit 9 = 6"
  using digit_9_stride
  by (simp add: spec_stride_def spec_slot_width_def digit_9_def digit_size_def word_div_def)

subsection \<open>The loop of \<open>blob::get\<close>\<close>























lemma replicate_5: "replicate 5 x = [x, x, x, x, x]"
proof -
  have "(5 :: nat) = Suc (Suc (Suc (Suc (Suc 0))))" by simp
  then show ?thesis by (simp only: replicate.simps)
qed

lemma cursor_new_made: "records_new flag_table [flag_column] = Inr cursor_new"
  by (simp add: records_new_def prepare_fields_def field_size_def flag_column_def
      boolean_size_def flag_table_def mem_object_def cursor_new_def word_less_nat_alt Let_def
      replicate_5)

lemma cursor_seeks:
  "seek cursor_new 0 = (Inr (), cursor_at_0)"
  "seek cursor_new 1 = (Inr (), cursor_at_1)"
  "seek cursor_at_0 2 =
     (Inl (Thrown ''Requested table record number exceeds object size.''), cursor_at_0)"
  by (simp_all add: seek_def records_size_def cursor_new_def cursor_at_0_def cursor_at_1_def
      flag_table_def mem_object_def word_le_nat_alt)

lemma is_deleted_unseeked:
  "last_index r = None \<Longrightarrow>
   is_deleted r = Inl (Thrown ''Attempting to access a table entry before reading it.'')"
  by (simp add: is_deleted_def seek_success_def)

lemma get_field_unseeked:
  "last_index r = None \<Longrightarrow>
   get_field ndebug cls r index =
     Inl (Thrown ''Attempting to access a table entry before reading it.'')"
  by (simp add: get_field_def seek_success_def)

lemma is_deleted_seeked:
  "last_index r = Some i \<Longrightarrow>
   is_deleted r = Inr ((mem_get (take 1 (record_buf r)) :: byte) = 1)"
  by (simp add: is_deleted_def seek_success_def)

lemma get_field_deleted:
  "last_index r = Some i \<Longrightarrow> is_deleted r = Inr True \<Longrightarrow>
   get_field False cls r index = Inl Assertion_failed"
  by (simp add: get_field_def seek_success_def)

lemma seek_position:
  "seek r i = (Inr u, r') \<Longrightarrow> last_index r' = Some i"
  by (auto simp: seek_def split: if_splits sum.splits)

lemma seek_read_fails:
  "i < records_size r \<Longrightarrow> last_index r \<noteq> Some i \<Longrightarrow>
   obj_read (obj_iface r) (length (record_buf r)) (length (record_buf r) * unat i) = Inl e \<Longrightarrow>
   seek r i = (Inl e, r\<lparr>last_index := None\<rparr>)"
  by (simp add: seek_def word_le_nat_alt word_less_nat_alt)

lemma records_new_unseeked: "records_new obj params = Inr r \<Longrightarrow> last_index r = None"
  by (auto simp: records_new_def Let_def split: sum.splits if_splits)
lemma cursor_positions:
  "last_index cursor_new = None" "last_index cursor_at_0 = Some 0"
  "last_index cursor_at_1 = Some 1"
  by (simp_all add: cursor_new_def cursor_at_0_def cursor_at_1_def)

lemma cursor_at_1_deleted: "is_deleted cursor_at_1 = Inr True"
  by (simp add: is_deleted_def seek_success_def cursor_at_1_def cursor_new_def)

lemma cursor_at_0_field:
  "is_deleted cursor_at_0 = Inr False"
  "get_field ndebug boolean_class cursor_at_0 0 =
     Inr \<lparr>boolean_params = flag_column, boolean_exists = Some True\<rparr>"
  by (simp_all add: is_deleted_def get_field_def seek_success_def cursor_at_0_def
      cursor_new_def boolean_class_def boolean_make_def boolean_size_def flag_column_def)

text \<open>
  C8 (as amended). A new cursor has no position. \<open>is_deleted\<close> and \<open>get_field\<close> on a
  cursor without a position throw the exception of the library, with the message
  \<open>Attempting to access a table entry before reading it.\<close>, in every build. A \<open>seek\<close> that
  returns gives the cursor the position asked for. With a position, \<open>is_deleted\<close> returns
  whether the first byte of the record is 1, and \<open>get_field\<close> on a deleted record fails
  its assertion in a build with assertions.
\<close>

theorem use_before_seek_throws:
  "(\<forall>r'. records_new obj params = Inr r' \<longrightarrow> last_index r' = None) \<and>
   (last_index r = None \<longrightarrow>
      is_deleted r = Inl (Thrown ''Attempting to access a table entry before reading it.'') \<and>
      get_field ndebug cls r index =
        Inl (Thrown ''Attempting to access a table entry before reading it.'')) \<and>
   (\<forall>u r'. seek r i = (Inr u, r') \<longrightarrow> last_index r' = Some i) \<and>
   (\<forall>j. last_index r = Some j \<longrightarrow>
      is_deleted r = Inr ((mem_get (take 1 (record_buf r)) :: byte) = 1) \<and>
      (is_deleted r = Inr True \<longrightarrow> get_field False cls r index = Inl Assertion_failed))"
  using records_new_unseeked [of obj params] is_deleted_unseeked [of r]
    get_field_unseeked [of r ndebug cls index] seek_position [of r i]
    is_deleted_seeked [of r] get_field_deleted [of r _ cls index]
  by blast

theorem use_before_seek_throws_witness:
  "records_new flag_table [flag_column] = Inr cursor_new \<and>
   last_index cursor_new = None \<and>
   is_deleted cursor_new =
     Inl (Thrown ''Attempting to access a table entry before reading it.'') \<and>
   get_field True boolean_class cursor_new 0 =
     Inl (Thrown ''Attempting to access a table entry before reading it.'') \<and>
   seek cursor_new 1 = (Inr (), cursor_at_1) \<and>
   last_index cursor_at_1 = Some 1 \<and>
   is_deleted cursor_at_1 = Inr True \<and>
   get_field False boolean_class cursor_at_1 0 = Inl Assertion_failed"
proof -
  note A = use_before_seek_throws [of flag_table "[flag_column]" cursor_new True boolean_class 0 1]
  note B = use_before_seek_throws [of flag_table "[flag_column]" cursor_at_1 True boolean_class 0 1]
  from A cursor_new_made have 1: "last_index cursor_new = None" by blast
  with A have 2:
    "is_deleted cursor_new =
       Inl (Thrown ''Attempting to access a table entry before reading it.'')"
    "get_field True boolean_class cursor_new 0 =
       Inl (Thrown ''Attempting to access a table entry before reading it.'')"
    by blast+
  from A cursor_seeks(2) have 3: "last_index cursor_at_1 = Some 1" by blast
  from B 3 cursor_at_1_deleted
  have 4: "get_field False boolean_class cursor_at_1 0 = Inl Assertion_failed" by blast
  from 1 2 3 4 cursor_new_made cursor_seeks(2) cursor_at_1_deleted show ?thesis by blast
qed

text \<open>
  C8 (as stated) fails on the new cursor of the one-column table: \<open>is_deleted\<close> and
  \<open>get_field\<close>, the latter with assertions compiled out and with assertions active, end in
  the exception of the library and not in an assertion.
\<close>

theorem use_before_seek_counterexample:
  "records_new flag_table [flag_column] = Inr cursor_new \<and>
   is_deleted cursor_new =
     Inl (Thrown ''Attempting to access a table entry before reading it.'') \<and>
   get_field True boolean_class cursor_new 0 =
     Inl (Thrown ''Attempting to access a table entry before reading it.'') \<and>
   get_field False boolean_class cursor_new 0 =
     Inl (Thrown ''Attempting to access a table entry before reading it.'')"
  using cursor_new_made
  by (simp add: is_deleted_unseeked get_field_unseeked cursor_positions)

lemma resize_length: "length (resize v n) = n"
  by (simp add: resize_def)

lemma inflate_call_length:
  "inflate_call z src strm dst = Inr (res, strm1, dst1) \<Longrightarrow> length dst1 = length dst"
  by (auto simp: inflate_call_def split: prod.splits if_splits)

lemma inflate_call_total_out:
  "inflate_call z src strm dst = Inr (res, strm1, dst1) \<Longrightarrow>
   total_out strm1 \<le> total_out strm + avail_out strm"
  by (auto simp: inflate_call_def split: prod.splits if_splits)

lemma decompress_hungry:
  "decompress zlib_hungry [0] 16 =
     Some (Inl (Thrown ''Data flow ended before it was decompressed by ZLIB.''))"
  apply (simp add: decompress_def Let_def zlib_hungry_def resize_def Z_OK_def)
  apply (subst inflate_loop.simps)
  apply (simp add: inflate_call_def Let_def Z_OK_def Z_STREAM_END_def resize_def)
  done

lemma inflate_loop_returns:
  assumes "0 < length dst" "total_out strm + avail_out strm \<le> length dst"
  shows "\<exists>r. inflate_loop z src m strm dst = Some r"
  using assms
proof (induction "m - length dst" arbitrary: strm dst rule: less_induct)
  case less
  show ?case
  proof (cases "inflate_call z src strm dst")
    case (Inl e)
    then show ?thesis by (subst inflate_loop.simps) simp
  next
    case (Inr t)
    obtain res strm1 dst1 where t: "t = (res, strm1, dst1)" by (cases t)
    from Inr t have call: "inflate_call z src strm dst = Inr (res, strm1, dst1)" by simp
    have len: "length dst1 = length dst" using inflate_call_length [OF call] .
    have tot: "total_out strm1 \<le> length dst"
      using inflate_call_total_out [OF call] less.prems(2) by arith
    show ?thesis
    proof (cases "res = Z_OK \<and> length dst1 < m \<and> length src - total_in strm1 \<noteq> 0")
      case False
      then show ?thesis
        by (subst inflate_loop.simps) (auto simp: call Let_def Z_OK_def Z_STREAM_END_def)
    next
      case True
      define dst2 where "dst2 =
        (if m - length dst1 < length dst1 then resize dst1 (length dst1 + (m - length dst1))
         else resize dst1 (length dst1 * 2))"
      define strm3 where "strm3 =
        strm1\<lparr>avail_in := length src - total_in strm1, next_in := total_in strm1,
              avail_out := length dst2 - total_out strm1, next_out := total_out strm1\<rparr>"
      have step: "inflate_loop z src m strm dst = inflate_loop z src m strm3 dst2"
        using True
        by (subst inflate_loop.simps)
          (simp add: call Let_def Z_OK_def Z_STREAM_END_def dst2_def strm3_def)
      have "length dst2 =
          (if m - length dst < length dst then length dst + (m - length dst) else length dst * 2)"
        by (simp add: dst2_def resize_length len)
      with True less.prems(1) have grow: "length dst < length dst2" "length dst2 \<le> m"
        unfolding len by (simp_all split: if_splits)
      then have "m - length dst2 < m - length dst" by arith
      moreover from grow less.prems(1) have "0 < length dst2" by arith
      moreover from tot grow have "total_out strm3 + avail_out strm3 \<le> length dst2"
        by (simp add: strm3_def)
      ultimately have "\<exists>r. inflate_loop z src m strm3 dst2 = Some r"
        by (rule less.hyps)
      with step show ?thesis by simp
    qed
  qed
qed

lemma decompress_returns: "\<exists>r. decompress z src max_size = Some r"
proof -
  have "\<exists>r. inflate_loop z src m
      \<lparr>total_in = 0, avail_in = length src, next_in = 0, total_out = 0,
       avail_out = length (resize [] (length src)), next_out = 0,
       internal = snd (inflateInit2 z)\<rparr> (resize [] (length src)) = Some r"
    if "src \<noteq> []" for m
    using that by (intro inflate_loop_returns) (simp_all add: resize_length)
  then show ?thesis by (auto simp: decompress_def Let_def)
qed

text \<open>
  C10. \<open>decompress\<close> of an empty input returns the empty buffer, whatever ZLIB does and
  whatever the limit is: it returns before ZLIB is called. It throws
  \<open>Data flow ended before it was decompressed by ZLIB.\<close> on non-empty inputs only. On every
  input it ends.
\<close>

theorem decompress_empty_input:
  "decompress z [] max_size = Some (Inr []) \<and>
   (decompress z src max_size =
      Some (Inl (Thrown ''Data flow ended before it was decompressed by ZLIB.'')) \<longrightarrow>
    src \<noteq> []) \<and>
   (\<exists>r. decompress z src max_size = Some r)"
proof -
  have 1: "decompress z [] max_size = Some (Inr [])" by (simp add: decompress_def)
  have 2: "src \<noteq> []"
    if "decompress z src max_size =
      Some (Inl (Thrown ''Data flow ended before it was decompressed by ZLIB.''))"
    using that by (auto simp: decompress_def)
  from 1 2 decompress_returns [of z src max_size] show ?thesis by blast
qed

theorem decompress_empty_input_witness:
  "decompress zlib_hungry [] 16 = Some (Inr []) \<and>
   decompress zlib_hungry [0] 16 =
     Some (Inl (Thrown ''Data flow ended before it was decompressed by ZLIB.'')) \<and>
   [0 :: byte] \<noteq> []"
  using decompress_empty_input [of zlib_hungry 16 "[0]"] decompress_hungry by simp

end
